theory Spec2Isabelle
  imports Complex_Main "HOL-Library.Sublist" "HOL-Library.Multiset" "HOL-Library.Log_Nat"
    "HOL-Library.Stream"
begin

section \<open>Strings\<close>

text \<open>
  A JavaScript string is a sequence of UTF-16 code units. The model is \<open>string\<close>
  (a \<open>char list\<close>); a \<open>char\<close> stands for the code unit with the same number, so the
  model covers the strings whose code units are below 256 (Latin-1). \<open>length\<close> is the
  \<open>.length\<close> of the source, \<open>s ! i\<close> is \<open>s[i]\<close>.
\<close>

definition isUpperCode :: "nat \<Rightarrow> bool" where
  "isUpperCode n = ((65 \<le> n \<and> n \<le> 90) \<or> (192 \<le> n \<and> n \<le> 222 \<and> n \<noteq> 215))"

text \<open>
  \<open>String.prototype.toLowerCase\<close> on one code unit: \<open>A\<close>..\<open>Z\<close> and the Latin-1 capitals
  (U+00C0..U+00DE without the multiplication sign U+00D7) move up by 32, which sets bit 5
  of the code; every other code unit below 256 is unchanged.
\<close>

definition toLowerChar :: "char \<Rightarrow> char" where
  "toLowerChar c =
     (if isUpperCode (of_char c)
      then (case c of Char b0 b1 b2 b3 b4 b5 b6 b7 \<Rightarrow> Char b0 b1 b2 b3 b4 True b6 b7)
      else c)"

definition toLowerCase :: "string \<Rightarrow> string" where
  "toLowerCase s = map toLowerChar s"

text \<open>
  \<open>String.prototype.trim\<close> removes white space and line terminators at both ends; below
  256 these are TAB, LF, VT, FF, CR, SPACE and NBSP.
\<close>

definition isWhiteSpace :: "char \<Rightarrow> bool" where
  "isWhiteSpace c = ((of_char c :: nat) \<in> {9, 10, 11, 12, 13, 32, 160})"

definition trim :: "string \<Rightarrow> string" where
  "trim s = rev (dropWhile isWhiteSpace (rev (dropWhile isWhiteSpace s)))"

text \<open>\<open>str.startsWith(t)\<close> and \<open>str.includes(t)\<close>.\<close>

fun startsWith :: "string \<Rightarrow> string \<Rightarrow> bool" where
  "startsWith s [] = True"
| "startsWith [] (d # t) = False"
| "startsWith (c # s) (d # t) = (c = d \<and> startsWith s t)"

fun includesStr :: "string \<Rightarrow> string \<Rightarrow> bool" where
  "includesStr [] t = (t = [])"
| "includesStr (c # s) t = (startsWith (c # s) t \<or> includesStr s t)"

section \<open>The parsed dataset\<close>

text \<open>
  \<open>response.json()\<close> gives a JSON value. An object is the list of its own properties in
  the order of \<open>Object.entries\<close>, with distinct keys. Numbers are the integers of
  magnitude below \<open>10^21\<close>, which \<open>toString\<close> renders in plain decimal.
\<close>

datatype json =
    JNull
  | JBool bool
  | JNum int
  | JStr string
  | JArr "json list"
  | JObj "(string \<times> json) list"

datatype error =
    InvalidFormat     \<comment> \<open>\<open>Error('Invalid JSON format. Expected array of objects or ...')\<close>\<close>
  | NoValidEntries    \<comment> \<open>\<open>Error('No valid word entries found in JSON file.')\<close>\<close>
  | TypeError         \<comment> \<open>raised by the runtime: calling what is not a function\<close>

text \<open>Truthiness of a value (\<open>entry && ...\<close>, \<open>word && definition\<close>).\<close>

fun truthy :: "json \<Rightarrow> bool" where
  "truthy JNull = False"
| "truthy (JBool b) = b"
| "truthy (JNum n) = (n \<noteq> 0)"
| "truthy (JStr s) = (s \<noteq> [])"
| "truthy (JArr xs) = True"
| "truthy (JObj kvs) = True"

text \<open>\<open>typeof v === 'object'\<close>: objects, arrays and \<open>null\<close>.\<close>

fun typeofObject :: "json \<Rightarrow> bool" where
  "typeofObject JNull = True"
| "typeofObject (JArr xs) = True"
| "typeofObject (JObj kvs) = True"
| "typeofObject v = False"

text \<open>
  \<open>entry.word\<close>, \<open>entry.definition\<close>: the own property of an object; \<open>None\<close> is
  \<open>undefined\<close> (an array or a primitive has neither property, and neither is inherited).
\<close>

fun getProp :: "json \<Rightarrow> string \<Rightarrow> json option" where
  "getProp (JObj kvs) k = map_of kvs k"
| "getProp v k = None"

fun truthyProp :: "json option \<Rightarrow> bool" where
  "truthyProp None = False"
| "truthyProp (Some v) = truthy v"

definition digitChar :: "nat \<Rightarrow> char" where
  "digitChar d = ''0123456789'' ! d"

fun showNat :: "nat \<Rightarrow> string" where
  "showNat n = (if n < 10 then [digitChar n] else showNat (n div 10) @ [digitChar (n mod 10)])"

definition showInt :: "int \<Rightarrow> string" where
  "showInt i = (if i < 0 then CHR ''-'' # showNat (nat (- i)) else showNat (nat i))"

fun joinComma :: "string list \<Rightarrow> string" where
  "joinComma [] = []"
| "joinComma [s] = s"
| "joinComma (s # t # ss) = s @ '','' @ joinComma (t # ss)"

fun sequenceE :: "(error + 'a) list \<Rightarrow> error + 'a list" where
  "sequenceE [] = Inr []"
| "sequenceE (Inl e # rs) = Inl e"
| "sequenceE (Inr x # rs) = (case sequenceE rs of Inl e \<Rightarrow> Inl e | Inr xs \<Rightarrow> Inr (x # xs))"

text \<open>
  The conversion to a string that \<open>Array.prototype.join\<close> applies to each element, and
  that \<open>v.toString()\<close> computes for a value other than \<open>null\<close>. \<open>null\<close> inside an array
  joins as the empty string. An object prints as \<open>[object Object]\<close>, unless it has an own
  property \<open>toString\<close>: that property is JSON data, not a function, and the conversion
  raises a \<open>TypeError\<close>.
\<close>

fun elemToString :: "json \<Rightarrow> error + string" where
  "elemToString JNull = Inr []"
| "elemToString (JBool b) = Inr (if b then ''true'' else ''false'')"
| "elemToString (JNum n) = Inr (showInt n)"
| "elemToString (JStr s) = Inr s"
| "elemToString (JArr xs) =
     (case sequenceE (map elemToString xs) of Inl e \<Rightarrow> Inl e | Inr ss \<Rightarrow> Inr (joinComma ss))"
| "elemToString (JObj kvs) =
     (if ''toString'' \<in> set (map fst kvs) then Inl TypeError else Inr ''[object Object]'')"

text \<open>\<open>v.toString()\<close>; on \<open>undefined\<close> (\<open>None\<close>) and \<open>null\<close> the call raises.\<close>

fun toStringCall :: "json option \<Rightarrow> error + string" where
  "toStringCall None = Inl TypeError"
| "toStringCall (Some JNull) = Inl TypeError"
| "toStringCall (Some v) = elemToString v"

section \<open>The dictionary\<close>

text \<open>
  An entry \<open>{ word, definition }\<close>; the field \<open>definition\<close> is \<open>definitionText\<close> here.
\<close>

record entry =
  word :: string
  definitionText :: string

text \<open>
  The fields of \<open>RandomDictionary\<close>. \<open>wordIndex\<close> is the \<open>Map\<close> from the lowercased word
  to \<open>{ entry, index }\<close>; only \<open>has\<close>, \<open>get\<close>, \<open>set\<close> and \<open>clear\<close> are used on it, so it is a
  partial function.
\<close>

record dictionary =
  words :: "entry list"
  isLoaded :: bool
  wordIndex :: "string \<rightharpoonup> (entry \<times> nat)"
  sortedWords :: "entry list"

text \<open>The state the constructor leaves before \<open>loadWords\<close> has run.\<close>

definition newDictionary :: dictionary where
  "newDictionary = \<lparr>words = [], isLoaded = False, wordIndex = Map.empty, sortedWords = []\<rparr>"

text \<open>
  \<open>Array.prototype.sort\<close> with a comparator \<open>cmp\<close> (negative: first argument first). The
  sort is stable; the model is insertion from the right, which places an element before
  the first one it does not compare greater than.
\<close>

fun insertBy :: "('a \<Rightarrow> 'a \<Rightarrow> rat) \<Rightarrow> 'a \<Rightarrow> 'a list \<Rightarrow> 'a list" where
  "insertBy cmp x [] = [x]"
| "insertBy cmp x (y # ys) = (if cmp x y \<le> 0 then x # y # ys else y # insertBy cmp x ys)"

definition sortBy :: "('a \<Rightarrow> 'a \<Rightarrow> rat) \<Rightarrow> 'a list \<Rightarrow> 'a list" where
  "sortBy cmp xs = foldr (insertBy cmp) xs []"

text \<open>
  \<open>a.localeCompare(b)\<close> depends on the collation of the host; it is the parameter \<open>lc\<close>
  of everything that builds \<open>sortedWords\<close>.
\<close>

type_synonym collation = "string \<Rightarrow> string \<Rightarrow> rat"

definition buildSearchIndexes :: "collation \<Rightarrow> dictionary \<Rightarrow> dictionary" where
  "buildSearchIndexes lc d =
     d\<lparr>wordIndex :=
         fold (\<lambda>(entry, index) m. m(toLowerCase (word entry) \<mapsto> (entry, index)))
              (zip (words d) [0 ..< length (words d)]) Map.empty,
       sortedWords :=
         sortBy (\<lambda>a b. lc (toLowerCase (word a)) (toLowerCase (word b))) (words d)\<rparr>"

text \<open>The filter and the map of format 1 (an array of objects).\<close>

definition validEntry :: "json \<Rightarrow> bool" where
  "validEntry entry =
     (truthy entry \<and> typeofObject entry \<and>
      truthyProp (getProp entry ''word'') \<and> truthyProp (getProp entry ''definition''))"

definition entryOfObject :: "json \<Rightarrow> error + entry" where
  "entryOfObject entry =
     (case toStringCall (getProp entry ''word'') of
        Inl e \<Rightarrow> Inl e
      | Inr w \<Rightarrow>
         (case toStringCall (getProp entry ''definition'') of
            Inl e \<Rightarrow> Inl e
          | Inr df \<Rightarrow> Inr \<lparr>word = trim w, definitionText = trim df\<rparr>))"

text \<open>The filter and the map of format 2 (an object of word keys).\<close>

definition validPair :: "string \<times> json \<Rightarrow> bool" where
  "validPair p = (fst p \<noteq> [] \<and> truthy (snd p))"

definition entryOfPair :: "string \<times> json \<Rightarrow> error + entry" where
  "entryOfPair p =
     (case toStringCall (Some (snd p)) of
        Inl e \<Rightarrow> Inl e
      | Inr df \<Rightarrow> Inr \<lparr>word = trim (fst p), definitionText = trim df\<rparr>)"

text \<open>
  The first statement of \<open>parseJSON\<close>: the assignment to \<open>this.words\<close>, or the throw
  of the last branch. An exception inside filter or map leaves \<open>this.words\<close> as it was.
\<close>

fun assignWords :: "json \<Rightarrow> dictionary \<Rightarrow> error + dictionary" where
  "assignWords (JArr xs) d =
     (case sequenceE (map entryOfObject (filter validEntry xs)) of
        Inl e \<Rightarrow> Inl e
      | Inr ws \<Rightarrow> Inr (d\<lparr>words := ws\<rparr>))"
| "assignWords (JObj kvs) d =
     (case sequenceE (map entryOfPair (filter validPair kvs)) of
        Inl e \<Rightarrow> Inl e
      | Inr ws \<Rightarrow> Inr (d\<lparr>words := ws\<rparr>))"
| "assignWords v d = Inl InvalidFormat"

text \<open>
  \<open>parseJSON\<close> returns the exception it threw, if any, and the state of the object at
  that moment.
\<close>

definition parseJSON :: "collation \<Rightarrow> json \<Rightarrow> dictionary \<Rightarrow> error option \<times> dictionary" where
  "parseJSON lc jsonData d =
     (case assignWords jsonData d of
        Inl e \<Rightarrow> (Some e, d)
      | Inr d1 \<Rightarrow>
         if length (words d1) = 0 then (Some NoValidEntries, d1)
         else (None, buildSearchIndexes lc d1))"

text \<open>
  \<open>loadWords\<close> once the response has been fetched and parsed into \<open>jsonData\<close>: an
  exception of \<open>parseJSON\<close> is caught and shown, and \<open>isLoaded\<close> is set only after
  \<open>parseJSON\<close> has returned.
\<close>

definition loadWords :: "collation \<Rightarrow> json \<Rightarrow> dictionary \<Rightarrow> error option \<times> dictionary" where
  "loadWords lc jsonData d =
     (case parseJSON lc jsonData d of
        (Some e, d') \<Rightarrow> (Some e, d')
      | (None, d') \<Rightarrow> (None, d'\<lparr>isLoaded := True\<rparr>))"

section \<open>Random words\<close>

text \<open>
  JavaScript numbers are IEEE 754 doubles; the model has them as rationals. \<open>binade x\<close>
  is the exponent \<open>e\<close> with \<open>2^e \<le> x < 2^(e+1)\<close> of a positive \<open>x\<close>: the doubles next to
  \<open>x\<close> are the multiples of \<open>2^(e-52)\<close>, and the multiples of \<open>2^-1074\<close> where \<open>x\<close> is
  below \<open>2^-1022\<close>. \<open>roundDouble x\<close> is the double nearest to \<open>x\<close>, a tie going to the
  even multiple, as every arithmetic operation of the language rounds its exact result
  (overflow to \<open>Infinity\<close>, beyond \<open>2^1024\<close>, is not reached here).
\<close>

definition binade :: "rat \<Rightarrow> int" where
  "binade x =
     (if 1 \<le> x then int (floorlog 2 (nat \<lfloor>x\<rfloor>)) - 1
      else (let l = int (floorlog 2 (nat \<lfloor>1 / x\<rfloor>)) - 1
            in if x * 2 powi l = 1 then - l else - l - 1))"

definition roundHalfEven :: "rat \<Rightarrow> int" where
  "roundHalfEven k =
     (let f = \<lfloor>k\<rfloor>; d = k - of_int f
      in if d < 1 / 2 then f else if 1 / 2 < d then f + 1 else if even f then f else f + 1)"

definition roundDouble :: "rat \<Rightarrow> rat" where
  "roundDouble x =
     (if x = 0 then 0
      else (let ulp = 2 powi (max (binade \<bar>x\<bar> - 52) (- 1074))
            in sgn x * of_int (roundHalfEven (\<bar>x\<bar> / ulp)) * ulp))"

text \<open>
  \<open>Math.floor(Math.random() * this.words.length)\<close> for the value \<open>r\<close> that
  \<open>Math.random()\<close> returns and the length \<open>n\<close> (an array length is below \<open>2^32\<close> and is
  a double as it is). \<open>Math.random()\<close> returns a double \<open>r\<close> with \<open>0 \<le> r < 1\<close>, so
  \<open>r \<le> 1 - 2^-53\<close>; the values it returns are inputs of the model. \<open>xs[i]\<close> outside the
  array is \<open>undefined\<close>, here \<open>None\<close>.
\<close>

definition randomIndex :: "rat \<Rightarrow> nat \<Rightarrow> nat" where
  "randomIndex r n = nat \<lfloor>roundDouble (r * of_nat n)\<rfloor>"

definition elemAt :: "'a list \<Rightarrow> nat \<Rightarrow> 'a option" where
  "elemAt xs i = (if i < length xs then Some (xs ! i) else None)"

definition getRandomWord :: "dictionary \<Rightarrow> rat \<Rightarrow> entry option" where
  "getRandomWord d r =
     (if \<not> isLoaded d \<or> length (words d) = 0 then None
      else elemAt (words d) (randomIndex r (length (words d))))"

text \<open>
  The loop of \<open>getMultipleRandomWords\<close>, with the stream \<open>rs\<close> of the values that the
  successive calls of \<open>Math.random()\<close> return. \<open>selectedIndices\<close> is the \<open>Set\<close> in
  insertion order, an index is added only when absent, so its \<open>size\<close> is the length of
  the list. The loop has no bound of its own: \<open>None\<close> says that it never ends.
\<close>

partial_function (option) drawLoop ::
  "entry list \<Rightarrow> nat \<Rightarrow> rat stream \<Rightarrow> nat list \<Rightarrow> entry option list
     \<Rightarrow> (nat list \<times> entry option list) option" where
  "drawLoop ws maxCount rs selectedIndices result =
     (if length selectedIndices < maxCount
      then (let randomIdx = randomIndex (shd rs) (length ws) in
            if randomIdx \<notin> set selectedIndices
            then drawLoop ws maxCount (stl rs) (selectedIndices @ [randomIdx])
                   (result @ [elemAt ws randomIdx])
            else drawLoop ws maxCount (stl rs) selectedIndices result)
      else Some (selectedIndices, result))"

text \<open>
  \<open>getMultipleRandomWords(count)\<close> for a count \<open>cnt\<close> that is a natural number; the first
  component of the result is \<open>selectedIndices\<close>, the second the returned array.
\<close>

definition getMultipleRandomWords ::
  "dictionary \<Rightarrow> nat \<Rightarrow> rat stream \<Rightarrow> (nat list \<times> entry option list) option" where
  "getMultipleRandomWords d cnt rs =
     (if \<not> isLoaded d \<or> length (words d) = 0 then Some ([], [])
      else drawLoop (words d) (min cnt (length (words d))) rs [] [])"

section \<open>The matcher\<close>

text \<open>
  \<open>_editDistance\<close>: the table \<open>dp\<close> is a list of rows; the four loops are folds over the
  index ranges, each step one assignment \<open>dp[i][j] = v\<close>.
\<close>

definition setCell :: "nat list list \<Rightarrow> nat \<Rightarrow> nat \<Rightarrow> nat \<Rightarrow> nat list list" where
  "setCell dp i j v = dp[i := (dp ! i)[j := v]]"

definition cellValue :: "string \<Rightarrow> string \<Rightarrow> nat list list \<Rightarrow> nat \<Rightarrow> nat \<Rightarrow> nat" where
  "cellValue s1 s2 dp i j =
     (if s1 ! (i - 1) = s2 ! (j - 1) then dp ! (i - 1) ! (j - 1)
      else 1 + min (dp ! (i - 1) ! j) (min (dp ! i ! (j - 1)) (dp ! (i - 1) ! (j - 1))))"

definition baseCases :: "string \<Rightarrow> string \<Rightarrow> nat list list" where
  "baseCases s1 s2 =
     (let dp = replicate (length s1 + 1) (replicate (length s2 + 1) 0);
          dp = fold (\<lambda>i dp. setCell dp i 0 i) [0 ..< length s1 + 1] dp
      in fold (\<lambda>j dp. setCell dp 0 j j) [0 ..< length s2 + 1] dp)"

definition fillRow :: "string \<Rightarrow> string \<Rightarrow> nat \<Rightarrow> nat list list \<Rightarrow> nat list list" where
  "fillRow s1 s2 i dp =
     fold (\<lambda>j dp. setCell dp i j (cellValue s1 s2 dp i j)) [1 ..< length s2 + 1] dp"

definition editDistance :: "string \<Rightarrow> string \<Rightarrow> nat" where
  "editDistance s1 s2 =
     (let dp = fold (fillRow s1 s2) [1 ..< length s1 + 1] (baseCases s1 s2)
      in dp ! length s1 ! length s2)"

text \<open>
  The recurrence that the table of \<open>_editDistance\<close> is filled by: \<open>prefixDistance s1 s2 i j\<close>
  is the value that the cell \<open>dp[i][j]\<close> is meant to hold, for the first \<open>i\<close> characters
  of \<open>s1\<close> and the first \<open>j\<close> characters of \<open>s2\<close>. It is used to state what the loops
  compute.
\<close>

fun prefixDistance :: "string \<Rightarrow> string \<Rightarrow> nat \<Rightarrow> nat \<Rightarrow> nat" where
  "prefixDistance s1 s2 0 j = j"
| "prefixDistance s1 s2 (Suc i) 0 = Suc i"
| "prefixDistance s1 s2 (Suc i) (Suc j) =
     (if s1 ! i = s2 ! j then prefixDistance s1 s2 i j
      else 1 + min (prefixDistance s1 s2 i (Suc j))
                   (min (prefixDistance s1 s2 (Suc i) j) (prefixDistance s1 s2 i j)))"

text \<open>
  The invariants of the loops of \<open>_editDistance\<close>: the table has \<open>s1.length + 1\<close> rows
  of \<open>s2.length + 1\<close> cells; column 0 is initialised and the rows before row \<open>i\<close> hold
  the values of the recurrence.
\<close>

definition tableShape :: "string \<Rightarrow> string \<Rightarrow> nat list list \<Rightarrow> bool" where
  "tableShape s1 s2 dp =
     (length dp = length s1 + 1 \<and> (\<forall>r \<le> length s1. length (dp ! r) = length s2 + 1))"

definition rowsFilled :: "string \<Rightarrow> string \<Rightarrow> nat \<Rightarrow> nat list list \<Rightarrow> bool" where
  "rowsFilled s1 s2 i dp =
     (tableShape s1 s2 dp \<and> (\<forall>r \<le> length s1. dp ! r ! 0 = r) \<and>
      (\<forall>r < i. \<forall>c \<le> length s2. dp ! r ! c = prefixDistance s1 s2 r c))"

text \<open>
  The loop of the subsequence check: the value of \<open>termIndex\<close> when the loop over the
  characters of \<open>strLower\<close> ends.
\<close>

fun termIndexAfter :: "string \<Rightarrow> string \<Rightarrow> nat" where
  "termIndexAfter [] t = 0"
| "termIndexAfter (c # s) [] = 0"
| "termIndexAfter (c # s) (d # t) =
     (if c = d then 1 + termIndexAfter s t else termIndexAfter s (d # t))"

text \<open>
  \<open>_fuzzyMatch(str, term)\<close>. The scores are JavaScript numbers; the model computes the
  similarity in exact rational arithmetic. \<open>maxLength\<close> is positive where the division
  is reached, since two empty strings are equal.
\<close>

definition fuzzyMatch :: "string \<Rightarrow> string \<Rightarrow> rat" where
  "fuzzyMatch str trm =
     (let strLower = toLowerCase str; termLower = toLowerCase trm in
      if strLower = termLower then 100
      else if includesStr strLower termLower then 80
      else if \<bar>int (length strLower) - int (length termLower)\<bar> > int (length termLower) then 0
      else if termIndexAfter strLower termLower = length termLower then 60
      else if length termLower \<le> 8 then
        (let maxLength = max (length strLower) (length termLower);
             editDist = editDistance strLower termLower;
             similarity = max 0 ((of_nat maxLength - of_nat editDist) / of_nat maxLength * 100)
         in if similarity > 40 then similarity else 0)
      else 0)"

section \<open>Search\<close>

text \<open>A scored result \<open>{ ...entry, score, matchType }\<close>.\<close>

record result = entry +
  score :: rat
  matchType :: string

definition withScore :: "entry \<Rightarrow> rat \<Rightarrow> string \<Rightarrow> result" where
  "withScore e sc mt =
     \<lparr>word = word e, definitionText = definitionText e, score = sc, matchType = mt\<rparr>"

text \<open>An element \<open>{ entry, score, matchType }\<close> of \<open>fastMatches\<close>.\<close>

record fastMatch =
  fmEntry :: entry
  fmScore :: rat
  fmMatchType :: string

definition maxResults :: nat where
  "maxResults = 1000"

text \<open>The body of the scan for one entry that is not skipped, before the early exit.\<close>

definition classify ::
  "string \<Rightarrow> string \<Rightarrow> entry \<Rightarrow> fastMatch list \<times> entry list \<Rightarrow> fastMatch list \<times> entry list" where
  "classify searchTerm termLower entry acc =
     (let wordLower = toLowerCase (word entry) in
      if startsWith wordLower termLower
      then (fst acc @ [\<lparr>fmEntry = entry, fmScore = 90, fmMatchType = ''word''\<rparr>], snd acc)
      else if includesStr wordLower termLower
      then (fst acc @ [\<lparr>fmEntry = entry, fmScore = 80, fmMatchType = ''word''\<rparr>], snd acc)
      else if length searchTerm \<ge> 3
      then (fst acc, snd acc @ [entry])
      else acc)"

text \<open>
  The scan \<open>for (const entry of this.words)\<close>; the accumulator is
  \<open>(fastMatches, expensiveMatches)\<close>. \<open>continue\<close> goes to the next entry without the
  test of the early exit, \<open>break\<close> returns.
\<close>

fun scanWords ::
  "string \<Rightarrow> string \<Rightarrow> entry list \<Rightarrow> fastMatch list \<times> entry list \<Rightarrow> fastMatch list \<times> entry list" where
  "scanWords searchTerm termLower [] acc = acc"
| "scanWords searchTerm termLower (entry # rest) acc =
     (if toLowerCase (word entry) = termLower then scanWords searchTerm termLower rest acc
      else (let acc' = classify searchTerm termLower entry acc in
            if length (fst acc') \<ge> maxResults div 2 then acc'
            else scanWords searchTerm termLower rest acc'))"

text \<open>
  The loop over \<open>expensiveMatches[0 .. fuzzyLimit - 1]\<close>, given the entries it visits.
\<close>

fun fuzzyLoop :: "string \<Rightarrow> entry list \<Rightarrow> result list \<Rightarrow> result list" where
  "fuzzyLoop searchTerm [] results = results"
| "fuzzyLoop searchTerm (entry # rest) results =
     (let wordScore = fuzzyMatch (word entry) searchTerm;
          results' = (if wordScore > 0 then results @ [withScore entry wordScore ''word'']
                      else results)
      in if length results' \<ge> maxResults then results' else fuzzyLoop searchTerm rest results')"

text \<open>The array \<open>results\<close> of \<open>searchWords\<close> as it is before the final sort.\<close>

definition collectResults :: "dictionary \<Rightarrow> string \<Rightarrow> result list" where
  "collectResults d searchTerm =
     (let termLower = toLowerCase searchTerm;
          results = (case wordIndex d termLower of
                       Some exactMatch \<Rightarrow> [withScore (fst exactMatch) 100 ''word'']
                     | None \<Rightarrow> []);
          scanned = scanWords searchTerm termLower (words d) ([], []);
          fastMatches = fst scanned;
          expensiveMatches = snd scanned;
          results = results @ map (\<lambda>m. withScore (fmEntry m) (fmScore m) (fmMatchType m)) fastMatches
      in if length results < 50 \<and> length expensiveMatches > 0
         then (let fuzzyLimit = min (length expensiveMatches) 500
               in fuzzyLoop searchTerm (take fuzzyLimit expensiveMatches) results)
         else results)"

definition searchWords :: "dictionary \<Rightarrow> string \<Rightarrow> result list" where
  "searchWords d searchTerm =
     (if \<not> isLoaded d \<or> searchTerm = [] then []
      else take maxResults (sortBy (\<lambda>a b. score b - score a) (collectResults d searchTerm)))"

section \<open>The cache of search results\<close>

text \<open>
  \<open>cachedSearchResults\<close> is a \<open>Map\<close>: the list of its entries in insertion order.
  \<open>mapSet\<close> is \<open>Map.prototype.set\<close>, which keeps the place of a key that is present.
\<close>

type_synonym cache = "(string \<times> result list) list"

definition CACHE_SIZE_LIMIT :: nat where
  "CACHE_SIZE_LIMIT = 50"

fun mapSet :: "string \<Rightarrow> 'v \<Rightarrow> (string \<times> 'v) list \<Rightarrow> (string \<times> 'v) list" where
  "mapSet k v [] = [(k, v)]"
| "mapSet k v (p # ps) = (if fst p = k then (k, v) # ps else p # mapSet k v ps)"

definition mapHas :: "(string \<times> 'v) list \<Rightarrow> string \<Rightarrow> bool" where
  "mapHas m k = (k \<in> set (map fst m))"

definition mapGet :: "(string \<times> 'v) list \<Rightarrow> string \<Rightarrow> 'v option" where
  "mapGet m k = map_of m k"

text \<open>
  The caching step of the callback in \<open>performLiveSearch\<close>: at the limit the first key
  of the map is deleted, then the results are stored.
\<close>

definition cacheStore :: "string \<Rightarrow> result list \<Rightarrow> cache \<Rightarrow> cache" where
  "cacheStore searchTerm results c =
     mapSet searchTerm results (if length c \<ge> CACHE_SIZE_LIMIT then tl c else c)"

text \<open>
  \<open>performLiveSearch\<close> as far as the cache goes, with the callback run at once: nothing
  happens before the dictionary is loaded, a cached term is served from the cache.
\<close>

definition performLiveSearch :: "dictionary \<Rightarrow> string \<Rightarrow> cache \<Rightarrow> cache" where
  "performLiveSearch d searchTerm c =
     (if \<not> isLoaded d then c
      else if mapHas c searchTerm then c
      else cacheStore searchTerm (searchWords d searchTerm) c)"

section \<open>The search with the failures of the runtime\<close>

text \<open>
  The functions of the search once more, with every operation that can fail written as
  a branch. Reading a property of \<open>undefined\<close> raises a \<open>TypeError\<close>: \<open>dp[i][j]\<close> where
  \<open>dp[i]\<close> is not a row of the table, \<open>exactMatch.entry\<close> where \<open>get\<close> found nothing,
  \<open>entry.word\<close> where \<open>expensiveMatches[i]\<close> is outside the array. A cell outside its row
  raises nothing in the source (a read yields \<open>undefined\<close>, a write extends the row); the
  model stops there as well, so that a result \<open>Inr\<close> says that no exception was raised
  and that the table was used inside its bounds. The scan, the sort and the slice have
  no such operation.
\<close>

datatype fault =
    TypeErrorRaised
  | OutsideRow

definition bindFault :: "fault + 'a \<Rightarrow> ('a \<Rightarrow> fault + 'b) \<Rightarrow> fault + 'b" where
  "bindFault m f = (case m of Inl e \<Rightarrow> Inl e | Inr x \<Rightarrow> f x)"

fun foldFault :: "('a \<Rightarrow> 'b \<Rightarrow> fault + 'b) \<Rightarrow> 'a list \<Rightarrow> 'b \<Rightarrow> fault + 'b" where
  "foldFault f [] x = Inr x"
| "foldFault f (k # ks) x = bindFault (f k x) (foldFault f ks)"

text \<open>The read \<open>dp[i][j]\<close> and the assignment \<open>dp[i][j] = v\<close>.\<close>

definition cellAt :: "nat list list \<Rightarrow> nat \<Rightarrow> nat \<Rightarrow> fault + nat" where
  "cellAt dp i j =
     (if i < length dp
      then (if j < length (dp ! i) then Inr (dp ! i ! j) else Inl OutsideRow)
      else Inl TypeErrorRaised)"

definition assignCell :: "nat list list \<Rightarrow> nat \<Rightarrow> nat \<Rightarrow> nat \<Rightarrow> fault + nat list list" where
  "assignCell dp i j v =
     (if i < length dp
      then (if j < length (dp ! i) then Inr (setCell dp i j v) else Inl OutsideRow)
      else Inl TypeErrorRaised)"

definition cellValueChecked ::
  "string \<Rightarrow> string \<Rightarrow> nat list list \<Rightarrow> nat \<Rightarrow> nat \<Rightarrow> fault + nat" where
  "cellValueChecked s1 s2 dp i j =
     (if s1 ! (i - 1) = s2 ! (j - 1) then cellAt dp (i - 1) (j - 1)
      else bindFault (cellAt dp (i - 1) j) (\<lambda>deletion.
           bindFault (cellAt dp i (j - 1)) (\<lambda>insertion.
           bindFault (cellAt dp (i - 1) (j - 1)) (\<lambda>substitution.
           Inr (1 + min deletion (min insertion substitution))))))"

definition baseCasesChecked :: "string \<Rightarrow> string \<Rightarrow> fault + nat list list" where
  "baseCasesChecked s1 s2 =
     bindFault
       (foldFault (\<lambda>i dp. assignCell dp i 0 i) [0 ..< length s1 + 1]
          (replicate (length s1 + 1) (replicate (length s2 + 1) 0)))
       (foldFault (\<lambda>j dp. assignCell dp 0 j j) [0 ..< length s2 + 1])"

definition fillRowChecked ::
  "string \<Rightarrow> string \<Rightarrow> nat \<Rightarrow> nat list list \<Rightarrow> fault + nat list list" where
  "fillRowChecked s1 s2 i dp =
     foldFault (\<lambda>j dp. bindFault (cellValueChecked s1 s2 dp i j) (assignCell dp i j))
       [1 ..< length s2 + 1] dp"

definition editDistanceChecked :: "string \<Rightarrow> string \<Rightarrow> fault + nat" where
  "editDistanceChecked s1 s2 =
     bindFault (baseCasesChecked s1 s2) (\<lambda>dp.
     bindFault (foldFault (fillRowChecked s1 s2) [1 ..< length s1 + 1] dp) (\<lambda>dp.
     cellAt dp (length s1) (length s2)))"

definition fuzzyMatchChecked :: "string \<Rightarrow> string \<Rightarrow> fault + rat" where
  "fuzzyMatchChecked str trm =
     (let strLower = toLowerCase str; termLower = toLowerCase trm in
      if strLower = termLower then Inr 100
      else if includesStr strLower termLower then Inr 80
      else if \<bar>int (length strLower) - int (length termLower)\<bar> > int (length termLower) then Inr 0
      else if termIndexAfter strLower termLower = length termLower then Inr 60
      else if length termLower \<le> 8 then
        bindFault (editDistanceChecked strLower termLower) (\<lambda>editDist.
          (let maxLength = max (length strLower) (length termLower);
               similarity = max 0 ((of_nat maxLength - of_nat editDist) / of_nat maxLength * 100)
           in Inr (if similarity > 40 then similarity else 0)))
      else Inr 0)"

text \<open>
  The loop \<open>for (let i = 0; i < fuzzyLimit; i++)\<close> with its index: \<open>expensiveMatches[i]\<close>
  is read, then its \<open>word\<close>.
\<close>

function fuzzyLoopChecked ::
  "string \<Rightarrow> entry list \<Rightarrow> nat \<Rightarrow> nat \<Rightarrow> result list \<Rightarrow> fault + result list" where
  "fuzzyLoopChecked searchTerm expensiveMatches fuzzyLimit i results =
     (if i < fuzzyLimit
      then (case elemAt expensiveMatches i of
              None \<Rightarrow> Inl TypeErrorRaised
            | Some entry \<Rightarrow>
               (case fuzzyMatchChecked (word entry) searchTerm of
                  Inl e \<Rightarrow> Inl e
                | Inr wordScore \<Rightarrow>
                   (let results' = (if wordScore > 0
                                    then results @ [withScore entry wordScore ''word'']
                                    else results)
                    in if length results' \<ge> maxResults then Inr results'
                       else fuzzyLoopChecked searchTerm expensiveMatches fuzzyLimit (Suc i)
                              results')))
      else Inr results)"
  by pat_completeness auto
termination
  by (relation "measure (\<lambda>(searchTerm, expensiveMatches, fuzzyLimit, i, results). fuzzyLimit - i)")
    auto

declare fuzzyLoopChecked.simps [simp del]

definition searchWordsChecked :: "dictionary \<Rightarrow> string \<Rightarrow> fault + result list" where
  "searchWordsChecked d searchTerm =
     (if \<not> isLoaded d \<or> searchTerm = [] then Inr []
      else
       (let termLower = toLowerCase searchTerm in
        bindFault
          (if wordIndex d termLower \<noteq> None
           then (case wordIndex d termLower of
                   None \<Rightarrow> Inl TypeErrorRaised
                 | Some exactMatch \<Rightarrow> Inr [withScore (fst exactMatch) 100 ''word''])
           else Inr [])
          (\<lambda>results.
            (let scanned = scanWords searchTerm termLower (words d) ([], []);
                 fastMatches = fst scanned;
                 expensiveMatches = snd scanned;
                 results = results @
                   map (\<lambda>m. withScore (fmEntry m) (fmScore m) (fmMatchType m)) fastMatches
             in bindFault
                  (if length results < 50 \<and> length expensiveMatches > 0
                   then fuzzyLoopChecked searchTerm expensiveMatches
                          (min (length expensiveMatches) 500) 0 results
                   else Inr results)
                  (\<lambda>results.
                    Inr (take maxResults (sortBy (\<lambda>a b. score b - score a) results)))))))"

section \<open>The table of the edit distance\<close>

lemma fold_upt_invariant:
  assumes "P a x"
    and "\<And>k y. a \<le> k \<Longrightarrow> k < b \<Longrightarrow> P k y \<Longrightarrow> P (Suc k) (f k y)"
    and "a \<le> b"
  shows "P b (fold f [a ..< b] x)"
  using assms(3,2)
proof (induction b)
  case 0
  then show ?case using assms(1) by simp
next
  case (Suc b)
  show ?case
  proof (cases "a = Suc b")
    case True
    then show ?thesis using assms(1) by simp
  next
    case False
    then have le: "a \<le> b" using Suc.prems(1) by simp
    have "P b (fold f [a ..< b] x)"
      using Suc.IH [OF le] Suc.prems(2) by simp
    then have "P (Suc b) (f b (fold f [a ..< b] x))"
      using Suc.prems(2) [of b] le by simp
    then show ?thesis
      using le by simp
  qed
qed

lemma length_setCell: "length (setCell dp i j v) = length dp"
  by (simp add: setCell_def)

lemma length_row_setCell: "length (setCell dp i j v ! r) = length (dp ! r)"
  by (cases "i < length dp") (simp_all add: setCell_def nth_list_update list_update_beyond)

lemma nth_setCell:
  "i < length dp \<Longrightarrow> j < length (dp ! i) \<Longrightarrow>
   setCell dp i j v ! r ! c = (if r = i \<and> c = j then v else dp ! r ! c)"
  by (simp add: setCell_def nth_list_update)

lemma tableShape_setCell: "tableShape s1 s2 dp \<Longrightarrow> tableShape s1 s2 (setCell dp i j v)"
  by (simp add: tableShape_def length_setCell length_row_setCell)

lemma nth_setCell_shape:
  "tableShape s1 s2 dp \<Longrightarrow> i \<le> length s1 \<Longrightarrow> j \<le> length s2 \<Longrightarrow>
   setCell dp i j v ! r ! c = (if r = i \<and> c = j then v else dp ! r ! c)"
  by (rule nth_setCell) (simp_all add: tableShape_def)

lemma baseCases_table:
  "tableShape s1 s2 (baseCases s1 s2) \<and>
   (\<forall>r \<le> length s1. baseCases s1 s2 ! r ! 0 = r) \<and>
   (\<forall>c \<le> length s2. baseCases s1 s2 ! 0 ! c = c)"
proof -
  let ?m = "length s1" and ?n = "length s2"
  let ?dp0 = "replicate (?m + 1) (replicate (?n + 1) (0::nat))"
  define dp1 where "dp1 = fold (\<lambda>i dp. setCell dp i 0 i) [0 ..< ?m + 1] ?dp0"
  define dp2 where "dp2 = fold (\<lambda>j dp. setCell dp 0 j j) [0 ..< ?n + 1] dp1"
  let ?P = "\<lambda>k dp. tableShape s1 s2 dp \<and> (\<forall>r < k. dp ! r ! 0 = r)"
  let ?Q = "\<lambda>k dp. tableShape s1 s2 dp \<and> (\<forall>r \<le> ?m. dp ! r ! 0 = r) \<and> (\<forall>c < k. dp ! 0 ! c = c)"
  have shape0: "tableShape s1 s2 ?dp0"
    by (simp add: tableShape_def nth_Cons')
  have "?P (?m + 1) dp1"
    unfolding dp1_def
  proof (rule fold_upt_invariant [where P = ?P])
    show "?P 0 ?dp0" using shape0 by simp
  next
    fix k y assume "0 \<le> k" and k: "k < ?m + 1" and inv: "?P k y"
    then show "?P (Suc k) (setCell y k 0 k)"
      by (auto simp: tableShape_setCell nth_setCell_shape less_Suc_eq)
  qed simp
  then have P: "tableShape s1 s2 dp1" "\<forall>r \<le> ?m. dp1 ! r ! 0 = r"
    by (simp_all add: less_Suc_eq_le)
  have "?Q (?n + 1) dp2"
    unfolding dp2_def
  proof (rule fold_upt_invariant [where P = ?Q])
    show "?Q 0 dp1" using P by simp
  next
    fix k y assume "0 \<le> k" and k: "k < ?n + 1" and inv: "?Q k y"
    then show "?Q (Suc k) (setCell y 0 k k)"
      by (auto simp: tableShape_setCell nth_setCell_shape less_Suc_eq)
  qed simp
  moreover have "baseCases s1 s2 = dp2"
    by (simp only: baseCases_def Let_def dp1_def dp2_def)
  ultimately show ?thesis
    by (simp add: less_Suc_eq_le)
qed

lemma fillRow_table:
  assumes "rowsFilled s1 s2 i dp" and "1 \<le> i" and "i \<le> length s1"
  shows "rowsFilled s1 s2 (Suc i) (fillRow s1 s2 i dp)"
proof -
  let ?n = "length s2"
  let ?R = "\<lambda>k dp. rowsFilled s1 s2 i dp \<and> (\<forall>c < k. dp ! i ! c = prefixDistance s1 s2 i c)"
  obtain i' where i': "i = Suc i'"
    using assms(2) by (cases i) auto
  define dp' where "dp' = fillRow s1 s2 i dp"
  have "?R (?n + 1) dp'"
    unfolding dp'_def fillRow_def
  proof (rule fold_upt_invariant [where P = ?R])
    show "?R 1 dp"
      using assms by (simp add: rowsFilled_def i')
  next
    fix k y assume k1: "1 \<le> k" and k: "k < ?n + 1" and inv: "?R k y"
    obtain k' where k': "k = Suc k'"
      using k1 by (cases k) auto
    have shape: "tableShape s1 s2 y"
      using inv by (simp add: rowsFilled_def)
    have up: "y ! i' ! k = prefixDistance s1 s2 i' k"
      and diag: "y ! i' ! k' = prefixDistance s1 s2 i' k'"
      using inv k by (simp_all add: rowsFilled_def i' k')
    have left: "y ! i ! k' = prefixDistance s1 s2 i k'"
      using inv by (simp add: k')
    have cell: "cellValue s1 s2 y i k = prefixDistance s1 s2 i k"
      by (simp add: cellValue_def i' k' up [unfolded k'] diag left [unfolded i'])
    have nth: "setCell y i k v ! r ! c = (if r = i \<and> c = k then v else y ! r ! c)" for v r c
      using shape assms(3) k by (simp add: nth_setCell_shape)
    have "rowsFilled s1 s2 i (setCell y i k (cellValue s1 s2 y i k))"
      using inv k1 by (auto simp: rowsFilled_def tableShape_setCell nth)
    moreover have "\<forall>c < Suc k. setCell y i k (cellValue s1 s2 y i k) ! i ! c = prefixDistance s1 s2 i c"
      using inv cell by (auto simp: nth less_Suc_eq)
    ultimately show "?R (Suc k) (setCell y i k (cellValue s1 s2 y i k))"
      by simp
  qed simp
  then have old: "rowsFilled s1 s2 i dp'"
    and new: "\<forall>c \<le> ?n. dp' ! i ! c = prefixDistance s1 s2 i c"
    by (simp_all add: less_Suc_eq_le)
  have "dp' ! r ! c = prefixDistance s1 s2 r c" if "r < Suc i" and "c \<le> ?n" for r c
  proof (cases "r = i")
    case True
    then show ?thesis using new that by simp
  next
    case False
    then have "r < i" using that by simp
    then show ?thesis using old that by (simp add: rowsFilled_def)
  qed
  then have "rowsFilled s1 s2 (Suc i) dp'"
    using old by (simp add: rowsFilled_def)
  then show ?thesis
    by (simp only: dp'_def)
qed

lemma editDistance_prefixDistance:
  "editDistance s1 s2 = prefixDistance s1 s2 (length s1) (length s2)"
proof -
  let ?m = "length s1"
  define dp where "dp = fold (fillRow s1 s2) [1 ..< ?m + 1] (baseCases s1 s2)"
  have "rowsFilled s1 s2 (?m + 1) dp"
    unfolding dp_def
  proof (rule fold_upt_invariant [where P = "rowsFilled s1 s2"])
    show "rowsFilled s1 s2 1 (baseCases s1 s2)"
      using baseCases_table [of s1 s2] by (simp add: rowsFilled_def)
  next
    fix k y assume "1 \<le> k" "k < ?m + 1" "rowsFilled s1 s2 k y"
    then show "rowsFilled s1 s2 (Suc k) (fillRow s1 s2 k y)"
      by (simp add: fillRow_table)
  qed simp
  then have "dp ! ?m ! length s2 = prefixDistance s1 s2 ?m (length s2)"
    by (simp add: rowsFilled_def)
  moreover have "editDistance s1 s2 = dp ! ?m ! length s2"
    by (simp only: editDistance_def Let_def dp_def)
  ultimately show ?thesis
    by simp
qed

lemma prefixDistance_zero:
  "i \<le> length s1 \<Longrightarrow> j \<le> length s2 \<Longrightarrow> prefixDistance s1 s2 i j = 0 \<Longrightarrow>
   i = j \<and> take i s1 = take j s2"
proof (induction s1 s2 i j rule: prefixDistance.induct)
  case (1 s1 s2 j)
  then show ?case by simp
next
  case (2 s1 s2 i)
  then show ?case by simp
next
  case (3 s1 s2 i j)
  from "3.prems"(3) have eq: "s1 ! i = s2 ! j" and z: "prefixDistance s1 s2 i j = 0"
    by (simp_all split: if_splits)
  have "i \<le> length s1" and "j \<le> length s2"
    using "3.prems"(1,2) by simp_all
  then have "i = j \<and> take i s1 = take j s2"
    using z by (rule "3.IH"(1) [OF eq])
  then have ij: "i = j" and t: "take i s1 = take j s2"
    by blast+
  have "take (Suc i) s1 = take i s1 @ [s1 ! i]"
    using "3.prems"(1) by (simp add: take_Suc_conv_app_nth)
  moreover have "take (Suc j) s2 = take j s2 @ [s2 ! j]"
    using "3.prems"(2) by (simp add: take_Suc_conv_app_nth)
  ultimately show ?case
    using ij t eq by simp
qed

lemma editDistance_zero: "editDistance s1 s2 = 0 \<Longrightarrow> s1 = s2"
  using prefixDistance_zero [of "length s1" s1 "length s2" s2]
  by (simp add: editDistance_prefixDistance)

section \<open>Properties of the matcher\<close>

lemma includesStr_Nil: "includesStr s []"
  by (induction s) auto




text \<open>
  C2. With the empty query the first two tiers decide: the score is 100 for an empty
  candidate (equal strings) and 80 for every other candidate (every string includes the
  empty string); it is never 0. The empty query never reaches the matcher through
  \<open>searchWords\<close>, which returns no result for it.
\<close>

theorem fuzzyMatch_empty_query:
  "fuzzyMatch x [] = (if x = [] then 100 else 80) \<and> searchWords d [] = []"
  by (simp add: fuzzyMatch_def toLowerCase_def includesStr_Nil searchWords_def)

theorem fuzzyMatch_empty_query_witness:
  "fuzzyMatch ''hello'' [] = 80 \<and> fuzzyMatch [] [] = 100 \<and> searchWords newDictionary [] = []"
  using fuzzyMatch_empty_query [of "''hello''" newDictionary]
    fuzzyMatch_empty_query [of "[]" newDictionary]
  by simp

theorem fuzzyMatch_empty_query_counterexample: "fuzzyMatch ''hello'' [] \<noteq> 0"
  by (simp add: fuzzyMatch_def toLowerCase_def)


section \<open>Properties of loading\<close>

lemma parseJSON_thrown_in_assignment:
  "assignWords jsonData d = Inl e \<Longrightarrow> parseJSON lc jsonData d = (Some e, d)"
  by (simp add: parseJSON_def)

text \<open>
  What a failed \<open>parseJSON\<close> leaves: the object as it was, or, for the exception
  \<open>NoValidEntries\<close>, the object with \<open>words\<close> emptied and the indexes as they were. The
  dictionary that the constructor made is left as it was in both cases.
\<close>

lemma assignWords_only_words:
  "assignWords jsonData d = Inr d1 \<Longrightarrow> \<exists>ws. d1 = d\<lparr>words := ws\<rparr>"
  by (cases jsonData) (auto split: sum.splits)

lemma failed_load_state:
  assumes "parseJSON lc jsonData d = (Some e, d')"
  shows "d' = d \<or> (e = NoValidEntries \<and> d' = d\<lparr>words := []\<rparr>)"
proof (cases "assignWords jsonData d")
  case (Inl e')
  then show ?thesis
    using assms by (simp add: parseJSON_def)
next
  case (Inr d1)
  then obtain ws where "d1 = d\<lparr>words := ws\<rparr>"
    using assignWords_only_words by blast
  then show ?thesis
    using assms Inr by (auto simp: parseJSON_def split: if_splits)
qed

lemma failed_first_load_unchanged:
  assumes "parseJSON lc jsonData newDictionary = (Some e, d')"
  shows "d' = newDictionary"
  using failed_load_state [OF assms] by (auto simp: newDictionary_def)

text \<open>
  C1. A dictionary is loaded with one entry, then loaded again with the empty array. The
  second load throws \<open>NoValidEntries\<close>, but \<open>this.words\<close> has been assigned before the
  test: the entries are gone, while \<open>wordIndex\<close> and \<open>sortedWords\<close> still hold the old
  entry.
\<close>

theorem failed_load_clears_words:
  "let d = snd (loadWords lc
                  (JArr [JObj [(''word'', JStr ''Cat''), (''definition'', JStr ''An animal'')]])
                  newDictionary)
   in words d = [\<lparr>word = ''Cat'', definitionText = ''An animal''\<rparr>] \<and>
      wordIndex d ''cat'' = Some (\<lparr>word = ''Cat'', definitionText = ''An animal''\<rparr>, 0) \<and>
      parseJSON lc (JArr []) d = (Some NoValidEntries, d\<lparr>words := []\<rparr>) \<and>
      loadWords lc (JArr []) d = (Some NoValidEntries, d\<lparr>words := []\<rparr>)"
  by (simp add: loadWords_def parseJSON_def newDictionary_def validEntry_def entryOfObject_def
      buildSearchIndexes_def sortBy_def trim_def isWhiteSpace_def toLowerCase_def toLowerChar_def
      isUpperCode_def)

text \<open>
  C4. The filter tests the raw values, the map trims them afterwards: a word that is one
  space passes the filter and is stored as the empty string, and the load succeeds.
\<close>

theorem blank_word_is_stored:
  "loadWords lc (JArr [JObj [(''word'', JStr '' ''), (''definition'', JStr ''x'')]]) newDictionary =
     (None, \<lparr>words = [\<lparr>word = [], definitionText = ''x''\<rparr>], isLoaded = True,
             wordIndex = [[] \<mapsto> (\<lparr>word = [], definitionText = ''x''\<rparr>, 0)],
             sortedWords = [\<lparr>word = [], definitionText = ''x''\<rparr>]\<rparr>)"
  by (simp add: loadWords_def parseJSON_def newDictionary_def validEntry_def entryOfObject_def
      buildSearchIndexes_def sortBy_def trim_def isWhiteSpace_def toLowerCase_def)

section \<open>Properties of search\<close>

lemma insertBy_score:
  "insertBy (\<lambda>a b. score b - score a) x ys = insort_key (\<lambda>r. - score r) x ys"
  by (induction ys) auto

lemma sortBy_score:
  "sortBy (\<lambda>a b. score b - score a) xs = sort_key (\<lambda>r. - score r) xs"
  by (induction xs) (auto simp: sortBy_def sort_key_def insertBy_score)

lemma sortBy_score_descending:
  "sorted_wrt (\<lambda>a b. score a \<ge> score b) (sortBy (\<lambda>a b. score b - score a) xs)"
proof -
  have "sorted (map (\<lambda>r. - score r) (sort_key (\<lambda>r. - score r) xs))"
    by (rule sorted_sort_key)
  then show ?thesis
    by (simp add: sortBy_score sorted_map sorted_wrt_iff_nth_less)
qed

lemma sortBy_score_stable:
  "filter (\<lambda>r. score r = k) (sortBy (\<lambda>a b. score b - score a) xs) = filter (\<lambda>r. score r = k) xs"
proof -
  have "filter (\<lambda>r. - score r = - k) (sort_key (\<lambda>r. - score r) xs)
          = filter (\<lambda>r. - score r = - k) xs"
    by (rule sort_key_stable)
  then show ?thesis
    by (simp add: sortBy_score)
qed

lemma mset_sortBy_score: "mset (sortBy (\<lambda>a b. score b - score a) xs) = mset xs"
  by (simp add: sortBy_score)

lemma prefix_filter_take: "prefix (filter P (take n xs)) (filter P xs)"
proof -
  have "filter P xs = filter P (take n xs) @ filter P (drop n xs)"
    by (metis append_take_drop_id filter_append)
  then show ?thesis
    by (simp add: prefix_def)
qed

text \<open>
  C6. The returned array is in descending order of score and has at most 1000 elements;
  for every score, the results with that score are the first ones collected with that
  score, in the order in which they were collected.
\<close>

theorem searchWords_sorted_stable_capped:
  "sorted_wrt (\<lambda>a b. score a \<ge> score b) (searchWords d q) \<and>
   length (searchWords d q) \<le> 1000 \<and>
   (\<forall>k. prefix (filter (\<lambda>r. score r = k) (searchWords d q))
               (filter (\<lambda>r. score r = k) (collectResults d q)))"
proof (cases "\<not> isLoaded d \<or> q = []")
  case True
  then show ?thesis by (simp add: searchWords_def)
next
  case False
  let ?s = "sortBy (\<lambda>a b. score b - score a) (collectResults d q)"
  have sw: "searchWords d q = take maxResults ?s"
    using False by (simp add: searchWords_def)
  have "sorted_wrt (\<lambda>a b. score a \<ge> score b) (take maxResults ?s)"
    by (rule sorted_wrt_take) (rule sortBy_score_descending)
  moreover have "length (take maxResults ?s) \<le> 1000"
    by (simp add: maxResults_def)
  moreover have "prefix (filter (\<lambda>r. score r = k) (take maxResults ?s))
                        (filter (\<lambda>r. score r = k) (collectResults d q))" for k
    using prefix_filter_take [of "\<lambda>r. score r = k" maxResults ?s]
    by (simp add: sortBy_score_stable)
  ultimately show ?thesis
    by (simp add: sw)
qed

theorem searchWords_sorted_stable_capped_witness:
  "searchWords
     (snd (loadWords (\<lambda>a b. 0)
        (JArr [JObj [(''word'', JStr ''apple''), (''definition'', JStr ''a fruit'')],
               JObj [(''word'', JStr ''application''), (''definition'', JStr ''a program'')]])
        newDictionary)) ''app'' =
     [\<lparr>word = ''apple'', definitionText = ''a fruit'', score = 90, matchType = ''word''\<rparr>,
      \<lparr>word = ''application'', definitionText = ''a program'', score = 90, matchType = ''word''\<rparr>] \<and>
   prefix
     [\<lparr>word = ''apple'', definitionText = ''a fruit'', score = 90, matchType = ''word''\<rparr>,
      \<lparr>word = ''application'', definitionText = ''a program'', score = 90, matchType = ''word''\<rparr>]
     (filter (\<lambda>r. score r = 90)
        (collectResults
           (snd (loadWords (\<lambda>a b. 0)
              (JArr [JObj [(''word'', JStr ''apple''), (''definition'', JStr ''a fruit'')],
                     JObj [(''word'', JStr ''application''), (''definition'', JStr ''a program'')]])
              newDictionary)) ''app''))"
proof -
  let ?d = "snd (loadWords (\<lambda>a b. 0)
        (JArr [JObj [(''word'', JStr ''apple''), (''definition'', JStr ''a fruit'')],
               JObj [(''word'', JStr ''application''), (''definition'', JStr ''a program'')]])
        newDictionary)"
  have e: "searchWords ?d ''app'' =
     [\<lparr>word = ''apple'', definitionText = ''a fruit'', score = 90, matchType = ''word''\<rparr>,
      \<lparr>word = ''application'', definitionText = ''a program'', score = 90, matchType = ''word''\<rparr>]"
    by code_simp
  have "prefix (filter (\<lambda>r. score r = 90) (searchWords ?d ''app''))
               (filter (\<lambda>r. score r = 90) (collectResults ?d ''app''))"
    using searchWords_sorted_stable_capped [of ?d "''app''"] by blast
  then show ?thesis
    by (simp add: e)
qed

section \<open>Properties of the cache\<close>

lemma mapSet_absent: "k \<notin> set (map fst m) \<Longrightarrow> mapSet k v m = m @ [(k, v)]"
  by (induction m) auto

lemma keys_after_eviction: "set (map fst (if b then tl c else c)) \<subseteq> set (map fst c)"
  by (cases c) auto

lemma performLiveSearch_fresh_keys:
  assumes "isLoaded d" and "distinct ks"
  shows "foldl (\<lambda>c k. performLiveSearch d k c) [] ks
           = map (\<lambda>k. (k, searchWords d k)) (drop (length ks - CACHE_SIZE_LIMIT) ks)"
  using assms(2)
proof (induction ks rule: rev_induct)
  case Nil
  then show ?case by simp
next
  case (snoc k ks)
  let ?f = "\<lambda>k. (k, searchWords d k)"
  let ?c = "map ?f (drop (length ks - CACHE_SIZE_LIMIT) ks)"
  let ?c' = "if length ?c \<ge> CACHE_SIZE_LIMIT then tl ?c else ?c"
  from snoc.prems have dist: "distinct ks" and fresh: "k \<notin> set ks"
    by simp_all
  have fold: "foldl (\<lambda>c k. performLiveSearch d k c) [] ks = ?c"
    using snoc.IH dist by simp
  have keys: "set (map fst ?c) \<subseteq> set ks"
    by (auto simp: comp_def dest: in_set_dropD)
  then have nohit: "\<not> mapHas ?c k"
    using fresh by (auto simp: mapHas_def)
  have "set (map fst ?c') \<subseteq> set (map fst ?c)"
    by (rule keys_after_eviction)
  then have fresh': "k \<notin> set (map fst ?c')"
    using keys fresh by blast
  have shape: "?c' = map ?f (drop (Suc (length ks) - CACHE_SIZE_LIMIT) ks)"
  proof (cases "length ks \<ge> CACHE_SIZE_LIMIT")
    case True
    then have "Suc (length ks) - CACHE_SIZE_LIMIT = Suc (length ks - CACHE_SIZE_LIMIT)"
      by simp
    then show ?thesis
      using True by (simp add: drop_Suc tl_drop CACHE_SIZE_LIMIT_def flip: map_tl)
  next
    case False
    then show ?thesis by (simp add: CACHE_SIZE_LIMIT_def)
  qed
  have "performLiveSearch d k ?c = cacheStore k (searchWords d k) ?c"
    using assms(1) nohit by (simp add: performLiveSearch_def)
  also have "\<dots> = mapSet k (searchWords d k) ?c'"
    by (simp only: cacheStore_def)
  also have "\<dots> = ?c' @ [?f k]"
    using fresh' by (rule mapSet_absent)
  also have "\<dots> = map ?f (drop (Suc (length ks) - CACHE_SIZE_LIMIT) ks) @ [?f k]"
    by (simp only: shape)
  also have "\<dots> = map ?f (drop (length (ks @ [k]) - CACHE_SIZE_LIMIT) (ks @ [k]))"
    by (simp add: CACHE_SIZE_LIMIT_def)
  finally show ?case
    by (simp add: fold)
qed

text \<open>
  C8. From the empty cache, searches for 51 distinct terms (one more than the limit of 50)
  on a loaded dictionary leave the first term out of the cache and every other term in
  it, with its results, in the order of insertion.
\<close>

theorem cache_evicts_first_inserted:
  assumes "isLoaded d" and "distinct ks" and "length ks = CACHE_SIZE_LIMIT + 1"
  shows "let c = foldl (\<lambda>c k. performLiveSearch d k c) [] ks
         in mapGet c (hd ks) = None \<and>
            (\<forall>k \<in> set (tl ks). mapGet c k = Some (searchWords d k)) \<and>
            map fst c = tl ks"
proof -
  let ?c = "foldl (\<lambda>c k. performLiveSearch d k c) [] ks"
  have c: "?c = map (\<lambda>k. (k, searchWords d k)) (tl ks)"
    using performLiveSearch_fresh_keys [OF assms(1,2)] assms(3) by (simp add: drop_Suc)
  have ne: "ks \<noteq> []"
    using assms(3) by auto
  then have "hd ks \<notin> set (tl ks)"
    using assms(2) by (cases ks) auto
  then have miss: "mapGet ?c (hd ks) = None"
    by (simp add: c mapGet_def map_of_map_restrict restrict_map_def)
  have hit: "\<forall>k \<in> set (tl ks). mapGet ?c k = Some (searchWords d k)"
    by (simp add: c mapGet_def map_of_map_restrict restrict_map_def)
  have "map fst ?c = tl ks"
    by (simp add: c comp_def)
  with miss hit show ?thesis
    by (simp add: Let_def)
qed

theorem cache_evicts_first_inserted_witness:
  "isLoaded (snd (loadWords (\<lambda>a b. 0) (JObj [(''Cat'', JStr ''An animal'')]) newDictionary)) \<and>
   distinct (map showNat [0 ..< 51]) \<and>
   length (map showNat [0 ..< 51]) = CACHE_SIZE_LIMIT + 1 \<and>
   (let c = foldl (\<lambda>c k. performLiveSearch
                  (snd (loadWords (\<lambda>a b. 0) (JObj [(''Cat'', JStr ''An animal'')]) newDictionary)) k c)
              [] (map showNat [0 ..< 51])
    in mapGet c ''0'' = None \<and> map fst c = map showNat [1 ..< 51])"
proof -
  let ?d = "snd (loadWords (\<lambda>a b. 0) (JObj [(''Cat'', JStr ''An animal'')]) newDictionary)"
  have h1: "isLoaded ?d" by code_simp
  have h2: "distinct (map showNat [0 ..< 51])" by code_simp
  have h3: "length (map showNat [0 ..< 51]) = CACHE_SIZE_LIMIT + 1" by code_simp
  have hd: "hd (map showNat [0 ..< 51]) = ''0''" by code_simp
  have tl: "tl (map showNat [0 ..< 51]) = map showNat [1 ..< 51]" by code_simp
  show ?thesis
    using cache_evicts_first_inserted [OF h1 h2 h3] h1 h2 h3
    by (simp only: Let_def hd tl)
qed

section \<open>Exact matches\<close>

lemma bit5_not_upper: "\<not> isUpperCode (of_char (Char b0 b1 b2 b3 b4 True b6 b7))"
  by (cases b6; cases b7; simp add: isUpperCode_def of_bool_def)

lemma toLowerChar_idem: "toLowerChar (toLowerChar c) = toLowerChar c"
proof (cases c)
  case (Char b0 b1 b2 b3 b4 b5 b6 b7)
  show ?thesis
  proof (cases "isUpperCode (of_char c)")
    case True
    then have "toLowerChar c = Char b0 b1 b2 b3 b4 True b6 b7"
      using Char by (simp add: toLowerChar_def)
    then show ?thesis
      using bit5_not_upper [of b0 b1 b2 b3 b4 b6 b7] by (simp add: toLowerChar_def)
  next
    case False
    then show ?thesis by (simp add: toLowerChar_def)
  qed
qed

lemma toLowerCase_idem: "toLowerCase (toLowerCase s) = toLowerCase s"
  by (simp add: toLowerCase_def toLowerChar_idem)

lemma toLowerCase_Nil_iff: "toLowerCase s = [] \<longleftrightarrow> s = []"
  by (simp add: toLowerCase_def)

lemma similarity_lt_100:
  assumes "0 < m" and "0 < e"
  shows "(of_nat m - of_nat e) / of_nat m * 100 < (100::rat)"
proof -
  have "(of_nat m - of_nat e) / (of_nat m :: rat) < 1"
    using assms by (simp add: divide_less_eq)
  then have "(of_nat m - of_nat e) / (of_nat m :: rat) * 100 < 1 * 100"
    by (rule mult_strict_right_mono) simp
  then show ?thesis by (simp only: mult_1)
qed

lemma fuzzyMatch_lt_100:
  assumes "toLowerCase a \<noteq> toLowerCase b"
  shows "fuzzyMatch a b < 100"
proof -
  let ?la = "toLowerCase a" and ?lb = "toLowerCase b"
  have e: "0 < editDistance ?la ?lb"
    using assms editDistance_zero [of ?la ?lb] by auto
  have "?la \<noteq> [] \<or> ?lb \<noteq> []"
    using assms by auto
  then have m: "0 < max (length ?la) (length ?lb)"
    by (auto simp: max_def)
  have "max 0 ((of_nat (max (length ?la) (length ?lb)) - of_nat (editDistance ?la ?lb))
                / of_nat (max (length ?la) (length ?lb)) * 100) < (100::rat)"
    using similarity_lt_100 [OF m e] by simp
  then show ?thesis
    using assms unfolding fuzzyMatch_def Let_def by simp
qed


lemma classify_fast:
  assumes "\<forall>m \<in> set (fst acc). fmScore m < 100 \<and> toLowerCase (word (fmEntry m)) \<noteq> termLower"
    and "toLowerCase (word entry) \<noteq> termLower"
  shows "\<forall>m \<in> set (fst (classify q termLower entry acc)).
           fmScore m < 100 \<and> toLowerCase (word (fmEntry m)) \<noteq> termLower"
  using assms by (auto simp: classify_def Let_def)

lemma classify_expensive:
  assumes "\<forall>e \<in> set (snd acc). toLowerCase (word e) \<noteq> termLower"
    and "toLowerCase (word entry) \<noteq> termLower"
  shows "\<forall>e \<in> set (snd (classify q termLower entry acc)). toLowerCase (word e) \<noteq> termLower"
  using assms by (auto simp: classify_def Let_def)

lemma scanWords_skip:
  "toLowerCase (word entry) = termLower \<Longrightarrow>
   scanWords q termLower (entry # rest) acc = scanWords q termLower rest acc"
  by simp

lemma scanWords_step:
  "toLowerCase (word entry) \<noteq> termLower \<Longrightarrow>
   scanWords q termLower (entry # rest) acc =
     (if length (fst (classify q termLower entry acc)) \<ge> maxResults div 2
      then classify q termLower entry acc
      else scanWords q termLower rest (classify q termLower entry acc))"
  by (simp add: Let_def)

lemma scanWords_fast:
  assumes "\<forall>m \<in> set (fst acc). fmScore m < 100 \<and> toLowerCase (word (fmEntry m)) \<noteq> termLower"
  shows "\<forall>m \<in> set (fst (scanWords q termLower ws acc)).
           fmScore m < 100 \<and> toLowerCase (word (fmEntry m)) \<noteq> termLower"
  using assms
proof (induction ws arbitrary: acc)
  case Nil
  then show ?case by simp
next
  case (Cons entry rest)
  show ?case
  proof (cases "toLowerCase (word entry) = termLower")
    case True
    then show ?thesis
      using Cons.IH [OF Cons.prems] by (simp only: scanWords_skip)
  next
    case False
    have step: "\<forall>m \<in> set (fst (classify q termLower entry acc)).
           fmScore m < 100 \<and> toLowerCase (word (fmEntry m)) \<noteq> termLower"
      using Cons.prems False by (rule classify_fast)
    show ?thesis
    proof (cases "length (fst (classify q termLower entry acc)) \<ge> maxResults div 2")
      case True
      then show ?thesis
        using step by (simp only: scanWords_step [OF False] if_True)
    next
      case False
      then show ?thesis
        using Cons.IH [OF step] by (simp only: scanWords_step [OF \<open>toLowerCase (word entry) \<noteq> termLower\<close>] if_False)
    qed
  qed
qed

lemma scanWords_expensive:
  assumes "\<forall>e \<in> set (snd acc). toLowerCase (word e) \<noteq> termLower"
  shows "\<forall>e \<in> set (snd (scanWords q termLower ws acc)). toLowerCase (word e) \<noteq> termLower"
  using assms
proof (induction ws arbitrary: acc)
  case Nil
  then show ?case by simp
next
  case (Cons entry rest)
  show ?case
  proof (cases "toLowerCase (word entry) = termLower")
    case True
    then show ?thesis
      using Cons.IH [OF Cons.prems] by (simp only: scanWords_skip)
  next
    case False
    have step: "\<forall>e \<in> set (snd (classify q termLower entry acc)). toLowerCase (word e) \<noteq> termLower"
      using Cons.prems False by (rule classify_expensive)
    show ?thesis
    proof (cases "length (fst (classify q termLower entry acc)) \<ge> maxResults div 2")
      case True
      then show ?thesis
        using step by (simp only: scanWords_step [OF False] if_True)
    next
      case False
      then show ?thesis
        using Cons.IH [OF step] by (simp only: scanWords_step [OF \<open>toLowerCase (word entry) \<noteq> termLower\<close>] if_False)
    qed
  qed
qed

lemma fuzzyLoop_appends:
  "\<exists>new. fuzzyLoop q es rs = rs @ new \<and>
         (\<forall>r \<in> set new. \<exists>e \<in> set es. r = withScore e (fuzzyMatch (word e) q) ''word'')"
proof (induction es arbitrary: rs)
  case Nil
  then show ?case by simp
next
  case (Cons entry rest)
  let ?rs' = "if fuzzyMatch (word entry) q > 0
              then rs @ [withScore entry (fuzzyMatch (word entry) q) ''word''] else rs"
  obtain add where add: "?rs' = rs @ add"
    and add_from: "\<forall>r \<in> set add. r = withScore entry (fuzzyMatch (word entry) q) ''word''"
    by (cases "fuzzyMatch (word entry) q > 0") auto
  show ?case
  proof (cases "length ?rs' \<ge> maxResults")
    case True
    then have "fuzzyLoop q (entry # rest) rs = ?rs'"
      by (simp add: Let_def)
    then show ?thesis
      using add add_from by auto
  next
    case False
    then have "fuzzyLoop q (entry # rest) rs = fuzzyLoop q rest ?rs'"
      by (simp add: Let_def)
    moreover obtain new where "fuzzyLoop q rest ?rs' = ?rs' @ new"
      and "\<forall>r \<in> set new. \<exists>e \<in> set rest. r = withScore e (fuzzyMatch (word e) q) ''word''"
      using Cons.IH [of ?rs'] by blast
    ultimately have "fuzzyLoop q (entry # rest) rs = rs @ (add @ new)"
      and "\<forall>r \<in> set (add @ new). \<exists>e \<in> set (entry # rest). r = withScore e (fuzzyMatch (word e) q) ''word''"
      using add add_from by auto
    then show ?thesis by blast
  qed
qed

lemma score_withScore: "score (withScore e sc mt) = sc"
  by (simp add: withScore_def)

lemma collectResults_shape:
  "\<exists>rest. collectResults d q =
            (case wordIndex d (toLowerCase q) of
               Some exactMatch \<Rightarrow> [withScore (fst exactMatch) 100 ''word'']
             | None \<Rightarrow> []) @ rest \<and>
          (\<forall>r \<in> set rest. score r < 100)"
proof -
  let ?tl = "toLowerCase q"
  let ?exact = "case wordIndex d ?tl of
                  Some exactMatch \<Rightarrow> [withScore (fst exactMatch) 100 ''word''] | None \<Rightarrow> []"
  let ?scan = "scanWords q ?tl (words d) ([], [])"
  let ?fast = "map (\<lambda>m. withScore (fmEntry m) (fmScore m) (fmMatchType m)) (fst ?scan)"
  have fast: "\<forall>m \<in> set (fst ?scan). fmScore m < 100 \<and> toLowerCase (word (fmEntry m)) \<noteq> ?tl"
    by (rule scanWords_fast) simp
  then have fast_scores: "\<forall>r \<in> set ?fast. score r < 100"
    by (simp add: score_withScore)
  have expensive: "\<forall>e \<in> set (snd ?scan). toLowerCase (word e) \<noteq> ?tl"
    by (rule scanWords_expensive) simp
  obtain new where new: "fuzzyLoop q (take (min (length (snd ?scan)) 500) (snd ?scan)) (?exact @ ?fast)
                          = (?exact @ ?fast) @ new"
    and new_from: "\<forall>r \<in> set new. \<exists>e \<in> set (take (min (length (snd ?scan)) 500) (snd ?scan)).
                      r = withScore e (fuzzyMatch (word e) q) ''word''"
    using fuzzyLoop_appends by blast
  have new_scores: "\<forall>r \<in> set new. score r < 100"
  proof
    fix r assume "r \<in> set new"
    then obtain e where e: "e \<in> set (take (min (length (snd ?scan)) 500) (snd ?scan))"
      and r: "r = withScore e (fuzzyMatch (word e) q) ''word''"
      using new_from by blast
    from e have "e \<in> set (snd ?scan)"
      by (rule in_set_takeD)
    then have "toLowerCase (word e) \<noteq> ?tl"
      using expensive by blast
    then show "score r < 100"
      by (simp add: r score_withScore fuzzyMatch_lt_100)
  qed
  show ?thesis
  proof (cases "length (?exact @ ?fast) < 50 \<and> length (snd ?scan) > 0")
    case True
    then have "collectResults d q = ?exact @ (?fast @ new)"
      using new by (simp add: collectResults_def Let_def)
    moreover have "\<forall>r \<in> set (?fast @ new). score r < 100"
      using fast_scores new_scores by auto
    ultimately show ?thesis by blast
  next
    case False
    then have "collectResults d q = ?exact @ ?fast"
      by (auto simp add: collectResults_def Let_def)
    then show ?thesis
      using fast_scores by blast
  qed
qed


lemma exact_results_only:
  assumes "\<forall>r \<in> set rest. score r < (100::rat)"
  shows "filter (\<lambda>r. score r = 100)
           ((case x of Some exactMatch \<Rightarrow> [withScore (fst exactMatch) 100 ''word''] | None \<Rightarrow> []) @ rest)
         = (case x of Some exactMatch \<Rightarrow> [withScore (fst exactMatch) 100 ''word''] | None \<Rightarrow> [])"
proof -
  have "filter (\<lambda>r. score r = 100) rest = []"
    using assms by (auto simp: filter_empty_conv)
  then show ?thesis
    by (cases x) (simp_all add: score_withScore)
qed

lemma searchWords_exact_prefix:
  "prefix (filter (\<lambda>r. score r = 100) (searchWords d q))
          (case wordIndex d (toLowerCase q) of
             Some exactMatch \<Rightarrow> [withScore (fst exactMatch) 100 ''word''] | None \<Rightarrow> [])"
proof (cases "\<not> isLoaded d \<or> q = []")
  case True
  then show ?thesis by (simp add: searchWords_def)
next
  case False
  let ?s = "sortBy (\<lambda>a b. score b - score a) (collectResults d q)"
  obtain rest where c: "collectResults d q =
        (case wordIndex d (toLowerCase q) of
           Some exactMatch \<Rightarrow> [withScore (fst exactMatch) 100 ''word''] | None \<Rightarrow> []) @ rest"
    and rest: "\<forall>r \<in> set rest. score r < 100"
    using collectResults_shape by blast
  have "prefix (filter (\<lambda>r. score r = 100) (take maxResults ?s)) (filter (\<lambda>r. score r = 100) ?s)"
    by (rule prefix_filter_take)
  also have "filter (\<lambda>r. score r = 100) ?s = filter (\<lambda>r. score r = 100) (collectResults d q)"
    by (rule sortBy_score_stable)
  also have "\<dots> = (case wordIndex d (toLowerCase q) of
           Some exactMatch \<Rightarrow> [withScore (fst exactMatch) 100 ''word''] | None \<Rightarrow> [])"
    unfolding c using rest by (rule exact_results_only)
  finally show ?thesis
    using False by (simp add: searchWords_def)
qed

text \<open>
  C10. The scan skips every entry whose lowercased word is the lowercased query: none of
  them is in \<open>fastMatches\<close> or in \<open>expensiveMatches\<close>. So at most one returned result has
  score 100, and a result with score 100 is the one built from the entry that
  \<open>wordIndex\<close> holds for the lowercased query.
\<close>

theorem scan_skips_exact_words:
  "(\<forall>m \<in> set (fst (scanWords q (toLowerCase q) (words d) ([], []))).
      toLowerCase (word (fmEntry m)) \<noteq> toLowerCase q) \<and>
   (\<forall>e \<in> set (snd (scanWords q (toLowerCase q) (words d) ([], []))).
      toLowerCase (word e) \<noteq> toLowerCase q) \<and>
   length (filter (\<lambda>r. score r = 100) (searchWords d q)) \<le> 1 \<and>
   (\<forall>r \<in> set (searchWords d q).
      score r = 100 \<longrightarrow>
      (\<exists>exactMatch. wordIndex d (toLowerCase q) = Some exactMatch \<and>
                     r = withScore (fst exactMatch) 100 ''word''))"
proof -
  let ?exact = "case wordIndex d (toLowerCase q) of
                  Some exactMatch \<Rightarrow> [withScore (fst exactMatch) 100 ''word''] | None \<Rightarrow> []"
  have "\<forall>m \<in> set (fst (scanWords q (toLowerCase q) (words d) ([], []))).
          fmScore m < 100 \<and> toLowerCase (word (fmEntry m)) \<noteq> toLowerCase q"
    by (rule scanWords_fast) simp
  then have fast: "\<forall>m \<in> set (fst (scanWords q (toLowerCase q) (words d) ([], []))).
          toLowerCase (word (fmEntry m)) \<noteq> toLowerCase q"
    by blast
  have expensive: "\<forall>e \<in> set (snd (scanWords q (toLowerCase q) (words d) ([], []))).
          toLowerCase (word e) \<noteq> toLowerCase q"
    by (rule scanWords_expensive) simp
  have pre: "prefix (filter (\<lambda>r. score r = 100) (searchWords d q)) ?exact"
    by (rule searchWords_exact_prefix)
  then have "length (filter (\<lambda>r. score r = 100) (searchWords d q)) \<le> length ?exact"
    by (rule prefix_length_le)
  also have "\<dots> \<le> 1"
    by (cases "wordIndex d (toLowerCase q)") simp_all
  finally have atmost: "length (filter (\<lambda>r. score r = 100) (searchWords d q)) \<le> 1" .
  have which: "\<exists>exactMatch. wordIndex d (toLowerCase q) = Some exactMatch \<and>
                     r = withScore (fst exactMatch) 100 ''word''"
    if "r \<in> set (searchWords d q)" and "score r = 100" for r
  proof -
    have "r \<in> set (filter (\<lambda>r. score r = 100) (searchWords d q))"
      using that by simp
    then have "r \<in> set ?exact"
      using pre set_mono_prefix by blast
    then show ?thesis
      by (cases "wordIndex d (toLowerCase q)") simp_all
  qed
  from fast expensive atmost which show ?thesis
    by blast
qed


lemma fold_index_lookup:
  fixes key :: "entry \<Rightarrow> string"
  defines "f \<equiv> \<lambda>(entry, index) m. m(key entry \<mapsto> (entry, index))"
  shows "fold f ps m0 k =
     (case filter (\<lambda>p. key (fst p) = k) ps of [] \<Rightarrow> m0 k | p # qs \<Rightarrow> Some (last (p # qs)))"
proof (induction ps arbitrary: m0)
  case Nil
  then show ?case by simp
next
  case (Cons p ps)
  have step: "f p m0 k = (if key (fst p) = k then Some p else m0 k)"
    by (cases p) (simp add: f_def)
  have "fold f (p # ps) m0 k = fold f ps (f p m0) k"
    by simp
  also have "\<dots> = (case filter (\<lambda>p. key (fst p) = k) ps of
                      [] \<Rightarrow> f p m0 k | p # qs \<Rightarrow> Some (last (p # qs)))"
    by (rule Cons.IH)
  also have "\<dots> = (case filter (\<lambda>p. key (fst p) = k) (p # ps) of
                      [] \<Rightarrow> m0 k | p # qs \<Rightarrow> Some (last (p # qs)))"
    by (cases "filter (\<lambda>p. key (fst p) = k) ps") (simp_all add: step)
  finally show ?case .
qed

lemma map_fst_filter: "map fst (filter (\<lambda>p. Q (fst p)) zs) = filter Q (map fst zs)"
  by (induction zs) auto

lemma wordIndex_after_build:
  assumes "e \<in> set (words d)"
  shows "\<exists>index. wordIndex (buildSearchIndexes lc d) (toLowerCase (word e)) =
           Some (last (filter (\<lambda>x. toLowerCase (word x) = toLowerCase (word e)) (words d)), index)"
proof -
  let ?k = "toLowerCase (word e)"
  let ?ps = "zip (words d) [0 ..< length (words d)]"
  let ?hits = "filter (\<lambda>p. toLowerCase (word (fst p)) = ?k) ?ps"
  have unzip: "map fst ?ps = words d"
    by simp
  have "map fst ?hits = filter (\<lambda>x. toLowerCase (word x) = ?k) (map fst ?ps)"
    by (rule map_fst_filter)
  then have proj: "map fst ?hits = filter (\<lambda>x. toLowerCase (word x) = ?k) (words d)"
    by (simp only: unzip)
  have "e \<in> set (filter (\<lambda>x. toLowerCase (word x) = ?k) (words d))"
    using assms by simp
  then have ne: "?hits \<noteq> []"
    using proj by (metis empty_iff list.map_disc_iff list.set(1))
  then have "fst (last ?hits) = last (filter (\<lambda>x. toLowerCase (word x) = ?k) (words d))"
    using proj by (metis last_map)
  moreover have "wordIndex (buildSearchIndexes lc d) ?k = Some (last ?hits)"
    using ne fold_index_lookup [of "\<lambda>x. toLowerCase (word x)" ?ps Map.empty ?k]
    by (cases ?hits) (simp_all add: buildSearchIndexes_def)
  ultimately show ?thesis
    by (metis prod.collapse)
qed

lemma sortBy_keeps_top:
  assumes "\<forall>y \<in> set xs. score y \<le> score x"
  shows "sortBy (\<lambda>a b. score b - score a) (x # xs) = x # sortBy (\<lambda>a b. score b - score a) xs"
proof (cases "sortBy (\<lambda>a b. score b - score a) xs")
  case Nil
  then show ?thesis by (simp add: sortBy_def)
next
  case (Cons y ys)
  have "set (sortBy (\<lambda>a b. score b - score a) xs) = set xs"
    using mset_sortBy_score [of xs] by (rule mset_eq_setD)
  then have "y \<in> set xs"
    using Cons by auto
  then have "score y - score x \<le> 0"
    using assms by simp
  then show ?thesis
    using Cons by (simp add: sortBy_def)
qed

lemma parseJSON_success:
  assumes "parseJSON lc jsonData d0 = (None, d)"
  shows "\<exists>d1. d = buildSearchIndexes lc d1 \<and> words d = words d1"
  using assms
  by (auto simp: parseJSON_def buildSearchIndexes_def split: sum.splits if_splits)

text \<open>
  C5. After a load that succeeds, for every stored entry whose (trimmed) word \<open>w\<close> is not
  empty, the search for the lowercased \<open>w\<close> returns a non-empty array, and its first
  element is the last entry of the dataset whose lowercased word is the lowercased \<open>w\<close>,
  with score 100.
\<close>

theorem exact_word_search_first:
  assumes "loadWords lc jsonData d0 = (None, d)"
    and "e \<in> set (words d)"
    and "word e \<noteq> []"
  shows "searchWords d (toLowerCase (word e)) \<noteq> [] \<and>
         hd (searchWords d (toLowerCase (word e))) =
           withScore (last (filter (\<lambda>x. toLowerCase (word x) = toLowerCase (word e)) (words d)))
             100 ''word''"
proof -
  let ?q = "toLowerCase (word e)"
  let ?top = "withScore (last (filter (\<lambda>x. toLowerCase (word x) = ?q) (words d))) 100 ''word''"
  obtain d' where parsed: "parseJSON lc jsonData d0 = (None, d')" and d: "d = d'\<lparr>isLoaded := True\<rparr>"
    using assms(1) by (auto simp: loadWords_def split: prod.splits option.splits)
  obtain d1 where d': "d' = buildSearchIndexes lc d1" and w: "words d' = words d1"
    using parseJSON_success [OF parsed] by blast
  have loaded: "isLoaded d"
    by (simp add: d)
  have "e \<in> set (words d1)"
    using assms(2) d w by simp
  then obtain index where "wordIndex (buildSearchIndexes lc d1) ?q =
      Some (last (filter (\<lambda>x. toLowerCase (word x) = ?q) (words d1)), index)"
    using wordIndex_after_build by blast
  then have idx: "wordIndex d (toLowerCase ?q) =
      Some (last (filter (\<lambda>x. toLowerCase (word x) = ?q) (words d)), index)"
    using d d' w by (simp add: toLowerCase_idem)
  obtain rest where c: "collectResults d ?q = ?top # rest"
    and rest: "\<forall>r \<in> set rest. score r < 100"
    using collectResults_shape [of d ?q] idx by auto
  have "\<forall>y \<in> set rest. score y \<le> score ?top"
    using rest by (auto simp: score_withScore less_imp_le)
  then have "sortBy (\<lambda>a b. score b - score a) (?top # rest)
               = ?top # sortBy (\<lambda>a b. score b - score a) rest"
    by (rule sortBy_keeps_top)
  moreover have "?q \<noteq> []"
    using assms(3) by (simp add: toLowerCase_Nil_iff)
  ultimately have "searchWords d ?q = ?top # take (maxResults - 1) (sortBy (\<lambda>a b. score b - score a) rest)"
    using loaded c by (simp add: searchWords_def maxResults_def take_Cons')
  then show ?thesis
    by simp
qed

theorem exact_word_search_first_witness:
  "fst (loadWords (\<lambda>a b. 0)
          (JArr [JObj [(''word'', JStr ''Cat''), (''definition'', JStr ''a'')],
                 JObj [(''word'', JStr ''cat''), (''definition'', JStr ''b'')]])
          newDictionary) = None \<and>
   words (snd (loadWords (\<lambda>a b. 0)
          (JArr [JObj [(''word'', JStr ''Cat''), (''definition'', JStr ''a'')],
                 JObj [(''word'', JStr ''cat''), (''definition'', JStr ''b'')]])
          newDictionary))
     = [\<lparr>word = ''Cat'', definitionText = ''a''\<rparr>, \<lparr>word = ''cat'', definitionText = ''b''\<rparr>] \<and>
   hd (searchWords
        (snd (loadWords (\<lambda>a b. 0)
          (JArr [JObj [(''word'', JStr ''Cat''), (''definition'', JStr ''a'')],
                 JObj [(''word'', JStr ''cat''), (''definition'', JStr ''b'')]])
          newDictionary))
        (toLowerCase ''Cat''))
     = \<lparr>word = ''cat'', definitionText = ''b'', score = 100, matchType = ''word''\<rparr>"
proof -
  let ?j = "JArr [JObj [(''word'', JStr ''Cat''), (''definition'', JStr ''a'')],
                  JObj [(''word'', JStr ''cat''), (''definition'', JStr ''b'')]]"
  let ?d = "snd (loadWords (\<lambda>a b. 0) ?j newDictionary)"
  let ?e = "\<lparr>word = ''Cat'', definitionText = ''a''\<rparr>"
  have ok: "fst (loadWords (\<lambda>a b. 0) ?j newDictionary) = None"
    by code_simp
  then have h1: "loadWords (\<lambda>a b. 0) ?j newDictionary = (None, ?d)"
    by (metis prod.collapse)
  have ws: "words ?d = [?e, \<lparr>word = ''cat'', definitionText = ''b''\<rparr>]"
    by code_simp
  have h2: "?e \<in> set (words ?d)"
    by (simp add: ws)
  have h3: "word ?e \<noteq> []"
    by simp
  have pick: "withScore (last (filter (\<lambda>x. toLowerCase (word x) = toLowerCase (word ?e)) (words ?d)))
                100 ''word''
              = \<lparr>word = ''cat'', definitionText = ''b'', score = 100, matchType = ''word''\<rparr>"
    by (simp add: ws withScore_def toLowerCase_def toLowerChar_def isUpperCode_def)
  show ?thesis
    using exact_word_search_first [OF h1 h2 h3] ok ws pick by simp
qed

theorem exact_word_search_counterexample:
  "fst (loadWords (\<lambda>a b. 0)
          (JArr [JObj [(''word'', JStr '' Cat ''), (''definition'', JStr ''An animal'')]])
          newDictionary) = None \<and>
   searchWords
     (snd (loadWords (\<lambda>a b. 0)
          (JArr [JObj [(''word'', JStr '' Cat ''), (''definition'', JStr ''An animal'')]])
          newDictionary))
     (toLowerCase '' Cat '')
     = [\<lparr>word = ''Cat'', definitionText = ''An animal'', score = 60, matchType = ''word''\<rparr>] \<and>
   score (hd (searchWords
     (snd (loadWords (\<lambda>a b. 0)
          (JArr [JObj [(''word'', JStr '' Cat ''), (''definition'', JStr ''An animal'')]])
          newDictionary))
     (toLowerCase '' Cat ''))) \<noteq> 100"
  by code_simp

theorem scan_skips_exact_words_witness:
  "searchWords
     (snd (loadWords (\<lambda>a b. 0)
          (JArr [JObj [(''word'', JStr ''Cat''), (''definition'', JStr ''a'')],
                 JObj [(''word'', JStr ''cat''), (''definition'', JStr ''b'')]])
          newDictionary)) ''cat''
     = [\<lparr>word = ''cat'', definitionText = ''b'', score = 100, matchType = ''word''\<rparr>] \<and>
   snd (scanWords ''cat'' (toLowerCase ''cat'')
          (words (snd (loadWords (\<lambda>a b. 0)
            (JArr [JObj [(''word'', JStr ''Cat''), (''definition'', JStr ''a'')],
                   JObj [(''word'', JStr ''cat''), (''definition'', JStr ''b'')]])
            newDictionary))) ([], [])) = [] \<and>
   length (filter (\<lambda>r. score r = 100)
     (searchWords
       (snd (loadWords (\<lambda>a b. 0)
          (JArr [JObj [(''word'', JStr ''Cat''), (''definition'', JStr ''a'')],
                 JObj [(''word'', JStr ''cat''), (''definition'', JStr ''b'')]])
          newDictionary)) ''cat'')) \<le> 1"
proof -
  let ?d = "snd (loadWords (\<lambda>a b. 0)
          (JArr [JObj [(''word'', JStr ''Cat''), (''definition'', JStr ''a'')],
                 JObj [(''word'', JStr ''cat''), (''definition'', JStr ''b'')]])
          newDictionary)"
  have e: "searchWords ?d ''cat''
     = [\<lparr>word = ''cat'', definitionText = ''b'', score = 100, matchType = ''word''\<rparr>]"
    by code_simp
  have s: "snd (scanWords ''cat'' (toLowerCase ''cat'') (words ?d) ([], [])) = []"
    by code_simp
  have "length (filter (\<lambda>r. score r = 100) (searchWords ?d ''cat'')) \<le> 1"
    using scan_skips_exact_words [of "''cat''" ?d] by blast
  then show ?thesis
    using e s by simp
qed

section \<open>Properties of the rounded random index\<close>

text \<open>
  The product is rounded before the floor: for \<open>r = 0.8999999999999999\<close> and 10 entries
  the exact product lies halfway below 9 and rounds to 9, for \<open>r = 0.3\<close> it rounds to 3.
\<close>

lemma randomIndex_rounds_product:
  "randomIndex (8106479329266892 / 9007199254740992) 10 = 9 \<and>
   randomIndex (5404319552844595 / 18014398509481984) 10 = 3"
  by code_simp

lemma roundHalfEven_le: "of_int (roundHalfEven k) \<le> k + 1 / 2"
proof -
  define f where "f = \<lfloor>k\<rfloor>"
  define d where "d = k - of_int f"
  have low: "of_int f \<le> k"
    by (simp add: f_def)
  have r: "roundHalfEven k = (if d < 1 / 2 then f else if 1 / 2 < d then f + 1
                               else if even f then f else f + 1)"
    by (simp add: roundHalfEven_def Let_def f_def d_def)
  show ?thesis
  proof (cases "d < 1 / 2")
    case True
    then show ?thesis using low r by simp
  next
    case False
    then have "of_int (f + 1) \<le> k + 1 / 2"
      by (simp add: d_def)
    then show ?thesis
      using low r by (simp split: if_splits)
  qed
qed

lemma binade_le:
  assumes "0 < x"
  shows "2 powi binade x \<le> x"
proof (cases "1 \<le> x")
  case True
  let ?n = "nat \<lfloor>x\<rfloor>"
  have n: "0 < ?n"
    using True by linarith
  then have "1 \<le> floorlog 2 ?n"
    by (simp add: floorlog_def)
  then have b: "binade x = int (floorlog 2 ?n - 1)"
    using True by (simp add: binade_def)
  have "2 ^ (floorlog 2 ?n - 1) \<le> ?n"
    using floorlog_bounds [of ?n 2] n by simp
  then have "(2::rat) ^ (floorlog 2 ?n - 1) \<le> of_nat ?n"
    by (metis of_nat_le_iff of_nat_numeral of_nat_power)
  also have "\<dots> \<le> x"
    using True by (simp add: of_nat_nat)
  finally show ?thesis
    by (simp add: b)
next
  case False
  let ?n = "nat \<lfloor>1 / x\<rfloor>"
  have big: "1 \<le> 1 / x"
    using assms False by (simp add: le_divide_eq)
  then have n: "0 < ?n"
    by linarith
  then have fl: "1 \<le> floorlog 2 ?n"
    by (simp add: floorlog_def)
  define l where "l = floorlog 2 ?n - 1"
  have lint: "int (floorlog 2 ?n) - 1 = int l"
    using fl by (simp add: l_def)
  show ?thesis
  proof (cases "x * 2 powi (int l) = 1")
    case True
    then have "binade x = - int l"
      using False by (simp add: binade_def lint Let_def)
    moreover have "x = 2 powi (- int l)"
      using True by (simp add: power_int_minus field_simps)
    ultimately show ?thesis by simp
  next
    case ne: False
    then have b: "binade x = - int (Suc l)"
      using False by (simp add: binade_def lint Let_def)
    have "?n < 2 ^ floorlog 2 ?n"
      using floorlog_bounds [of ?n 2] n by simp
    then have "?n < 2 ^ Suc l"
      using fl by (simp add: l_def)
    then have "?n + 1 \<le> 2 ^ Suc l"
      by simp
    then have "(of_nat (?n + 1) :: rat) \<le> 2 ^ Suc l"
      by (metis of_nat_le_iff of_nat_numeral of_nat_power)
    moreover have "1 / x < of_nat (?n + 1)"
      using big by (simp add: of_nat_nat) linarith
    ultimately have "1 / x < 2 ^ Suc l"
      by linarith
    then have "1 / 2 ^ Suc l < x"
      using assms by (simp add: field_simps)
    moreover have "(2::rat) powi (- int (Suc l)) = 1 / 2 ^ Suc l"
      by (simp only: power_int_minus power_int_of_nat inverse_eq_divide)
    ultimately have "(2::rat) powi (- int (Suc l)) \<le> x"
      by simp
    then show ?thesis
      by (simp only: b)
  qed
qed

lemma roundDouble_upper:
  assumes "0 < x"
  shows "roundDouble x \<le> x + 2 powi (max (binade x - 52) (- 1074)) / 2"
proof -
  let ?ulp = "(2::rat) powi (max (binade x - 52) (- 1074))"
  have pos: "0 < ?ulp"
    by simp
  have "of_int (roundHalfEven (x / ?ulp)) \<le> x / ?ulp + 1 / 2"
    by (rule roundHalfEven_le)
  then have "of_int (roundHalfEven (x / ?ulp)) * ?ulp \<le> (x / ?ulp + 1 / 2) * ?ulp"
    using pos by (simp only: mult_le_cancel_right_pos)
  also have "\<dots> = x + ?ulp / 2"
    using pos by (simp add: field_simps)
  finally show ?thesis
    using assms by (simp add: roundDouble_def Let_def)
qed

lemma randomIndex_less:
  assumes "0 \<le> r" and "r \<le> 1 - 1 / 2 ^ 53" and "0 < n"
  shows "randomIndex r n < n"
proof (cases "r = 0")
  case True
  then show ?thesis
    using assms(3) by (simp add: randomIndex_def roundDouble_def)
next
  case False
  let ?p = "r * of_nat n"
  let ?q = "max (binade ?p - 52) (- 1074)"
  have p: "0 < ?p"
    using assms(1,3) False by simp
  have "?p \<le> (1 - 1 / 2 ^ 53) * of_nat n"
    using assms(2) by (rule mult_right_mono) simp
  then have gap: "of_nat n / 2 ^ 53 \<le> of_nat n - ?p"
    by (simp add: field_simps)
  have "0 < of_nat n / (2 ^ 53 :: rat)"
    using assms(3) by simp
  then have lt: "?p < of_nat n"
    using gap by linarith
  have one: "(1::rat) \<le> of_nat n"
    using assms(3) by simp
  have "(2::rat) powi (?q + 53) < of_nat n * 2"
  proof (cases "binade ?p - 52 \<ge> - 1074")
    case True
    then have "?q + 53 = binade ?p + 1"
      by simp
    then have "(2::rat) powi (?q + 53) = 2 powi binade ?p * 2"
      by (simp add: power_int_add)
    also have "\<dots> \<le> ?p * 2"
      using binade_le [OF p] by simp
    also have "\<dots> < of_nat n * 2"
      using lt by simp
    finally show ?thesis .
  next
    case False
    then have "?q + 53 = - 1021"
      by simp
    then have "(2::rat) powi (?q + 53) = 2 powi (- 1021)"
      by simp
    also have "\<dots> \<le> 1"
      by (simp add: power_int_minus field_simps)
    also have "\<dots> < of_nat n * 2"
      using one by linarith
    finally show ?thesis .
  qed
  then have "(2::rat) powi ?q * 2 ^ 53 < of_nat n * 2"
    by (simp add: power_int_add)
  then have half: "(2::rat) powi ?q / 2 < of_nat n / 2 ^ 53"
    by (simp add: field_simps)
  have "roundDouble ?p \<le> ?p + 2 powi ?q / 2"
    using p by (rule roundDouble_upper)
  also have "\<dots> < ?p + of_nat n / 2 ^ 53"
    using half by simp
  also have "\<dots> \<le> of_nat n"
    using gap by simp
  finally have "roundDouble ?p < of_nat n" .
  then have "\<lfloor>roundDouble ?p\<rfloor> < int n"
    by (simp add: floor_less_iff)
  then have "nat \<lfloor>roundDouble ?p\<rfloor> < n"
    using assms(3) by linarith
  then show ?thesis
    by (simp only: randomIndex_def)
qed

section \<open>Properties of the random draws\<close>

lemma drawLoop_done:
  "\<not> length sel < maxCount \<Longrightarrow> drawLoop ws maxCount rs sel res = Some (sel, res)"
  by (subst drawLoop.simps) simp

lemma drawLoop_new:
  "length sel < maxCount \<Longrightarrow> randomIndex (shd rs) (length ws) \<notin> set sel \<Longrightarrow>
   drawLoop ws maxCount rs sel res =
     drawLoop ws maxCount (stl rs) (sel @ [randomIndex (shd rs) (length ws)])
       (res @ [elemAt ws (randomIndex (shd rs) (length ws))])"
  by (subst drawLoop.simps) (simp add: Let_def)

lemma drawLoop_repeat:
  "length sel < maxCount \<Longrightarrow> randomIndex (shd rs) (length ws) \<in> set sel \<Longrightarrow>
   drawLoop ws maxCount rs sel res = drawLoop ws maxCount (stl rs) sel res"
  by (subst drawLoop.simps) (simp add: Let_def)

lemma drawLoop_enough:
  assumes "maxCount \<le> card (set sel \<union> (\<lambda>r. randomIndex r (length ws)) ` set (stake k rs))"
    and "distinct sel" and "length sel \<le> maxCount"
    and "\<forall>i \<in> set sel. i < length ws"
    and "res = map (\<lambda>i. Some (ws ! i)) sel"
    and "\<forall>r \<in> sset rs. 0 \<le> r \<and> r \<le> 1 - 1 / 2 ^ 53"
    and "ws \<noteq> []"
  shows "\<exists>idxs out. drawLoop ws maxCount rs sel res = Some (idxs, out) \<and>
           distinct idxs \<and> length idxs = maxCount \<and> (\<forall>i \<in> set idxs. i < length ws) \<and>
           out = map (\<lambda>i. Some (ws ! i)) idxs"
  using assms
proof (induction k arbitrary: rs sel res)
  case 0
  then have "maxCount \<le> length sel"
    by (simp add: distinct_card)
  then have "length sel = maxCount" and "\<not> length sel < maxCount"
    using "0.prems"(3) by simp_all
  then show ?case
    using "0.prems" by (simp add: drawLoop_done)
next
  case (Suc k)
  let ?i = "randomIndex (shd rs) (length ws)"
  show ?case
  proof (cases "length sel < maxCount")
    case False
    then have "length sel = maxCount"
      using Suc.prems(3) by simp
    then show ?thesis
      using False Suc.prems by (simp add: drawLoop_done)
  next
    case True
    have tail: "\<forall>r \<in> sset (stl rs). 0 \<le> r \<and> r \<le> 1 - 1 / 2 ^ 53"
      using Suc.prems(6) by (metis stl_sset)
    have "shd rs \<in> sset rs"
      by (rule shd_sset)
    then have range: "?i < length ws"
      using Suc.prems(6,7) by (simp add: randomIndex_less)
    show ?thesis
    proof (cases "?i \<in> set sel")
      case True
      then have "set sel \<union> (\<lambda>r. randomIndex r (length ws)) ` set (stake (Suc k) rs)
                   = set sel \<union> (\<lambda>r. randomIndex r (length ws)) ` set (stake k (stl rs))"
        by auto
      then have "maxCount \<le> card (set sel \<union> (\<lambda>r. randomIndex r (length ws)) ` set (stake k (stl rs)))"
        using Suc.prems(1) by simp
      then show ?thesis
        using Suc.IH [of sel "stl rs" res] Suc.prems(2-5,7) tail True \<open>length sel < maxCount\<close>
        by (simp add: drawLoop_repeat)
    next
      case False
      have "set (sel @ [?i]) \<union> (\<lambda>r. randomIndex r (length ws)) ` set (stake k (stl rs))
              = set sel \<union> (\<lambda>r. randomIndex r (length ws)) ` set (stake (Suc k) rs)"
        by auto
      then have "maxCount \<le> card (set (sel @ [?i]) \<union>
                    (\<lambda>r. randomIndex r (length ws)) ` set (stake k (stl rs)))"
        using Suc.prems(1) by simp
      moreover have "res @ [elemAt ws ?i] = map (\<lambda>i. Some (ws ! i)) (sel @ [?i])"
        using range Suc.prems(5) by (simp add: elemAt_def)
      ultimately show ?thesis
        using Suc.IH [of "sel @ [?i]" "stl rs" "res @ [elemAt ws ?i]"] Suc.prems(2-4,7) tail False
          True range
        by (simp add: drawLoop_new)
    qed
  qed
qed

lemma drawLoop_returned:
  assumes "drawLoop ws maxCount rs sel res = Some y" and "distinct sel"
  shows "\<exists>k. maxCount \<le> card (set sel \<union> (\<lambda>r. randomIndex r (length ws)) ` set (stake k rs))"
  using assms(2)
proof (induction ws maxCount rs sel res y rule: drawLoop.raw_induct)
  case (1 loop ws maxCount rs sel res y)
  let ?i = "randomIndex (shd rs) (length ws)"
  show ?case
  proof (cases "length sel < maxCount")
    case False
    then have "maxCount \<le> card (set sel \<union> (\<lambda>r. randomIndex r (length ws)) ` set (stake 0 rs))"
      using "1.prems" by (simp add: distinct_card)
    then show ?thesis by blast
  next
    case True
    show ?thesis
    proof (cases "?i \<in> set sel")
      case True
      then have "loop ws maxCount (stl rs) sel res = Some y"
        using "1.hyps" \<open>length sel < maxCount\<close> by (simp add: Let_def)
      then obtain k where "maxCount \<le> card (set sel \<union>
            (\<lambda>r. randomIndex r (length ws)) ` set (stake k (stl rs)))"
        using "1.IH" "1.prems" by blast
      moreover have "set sel \<union> (\<lambda>r. randomIndex r (length ws)) ` set (stake (Suc k) rs)
                   = set sel \<union> (\<lambda>r. randomIndex r (length ws)) ` set (stake k (stl rs))"
        using True by auto
      ultimately have "maxCount \<le> card (set sel \<union>
            (\<lambda>r. randomIndex r (length ws)) ` set (stake (Suc k) rs))"
        by simp
      then show ?thesis by blast
    next
      case False
      then have "loop ws maxCount (stl rs) (sel @ [?i]) (res @ [elemAt ws ?i]) = Some y"
        using "1.hyps" True by (simp add: Let_def)
      moreover have "distinct (sel @ [?i])"
        using False "1.prems" by simp
      ultimately obtain k where "maxCount \<le> card (set (sel @ [?i]) \<union>
            (\<lambda>r. randomIndex r (length ws)) ` set (stake k (stl rs)))"
        using "1.IH" by blast
      moreover have "set (sel @ [?i]) \<union> (\<lambda>r. randomIndex r (length ws)) ` set (stake k (stl rs))
              = set sel \<union> (\<lambda>r. randomIndex r (length ws)) ` set (stake (Suc k) rs)"
        by auto
      ultimately have "maxCount \<le> card (set sel \<union>
            (\<lambda>r. randomIndex r (length ws)) ` set (stake (Suc k) rs))"
        by simp
      then show ?thesis by blast
    qed
  qed
qed (rule assms(1))

lemma all_indices_once:
  assumes "distinct xs" and "\<forall>i \<in> set xs. i < n" and "length xs = n"
  shows "mset xs = mset [0 ..< n]"
proof -
  have "set xs \<subseteq> {0 ..< n}"
    using assms(2) by auto
  moreover have "card (set xs) = card {0 ..< n}"
    using assms(1,3) by (simp add: distinct_card)
  ultimately have "set xs = {0 ..< n}"
    by (simp add: card_subset_eq)
  then have "mset_set (set xs) = mset_set {0 ..< n}"
    by simp
  then show ?thesis
    using assms(1) by (simp add: mset_set_set)
qed

lemma every_entry_once:
  assumes "distinct xs" and "\<forall>i \<in> set xs. i < length ws" and "length xs = length ws"
  shows "mset (map (\<lambda>i. Some (ws ! i)) xs) = mset (map Some ws)"
proof -
  have "mset (map (\<lambda>i. Some (ws ! i)) xs) = image_mset (\<lambda>i. Some (ws ! i)) (mset xs)"
    by simp
  also have "\<dots> = image_mset (\<lambda>i. Some (ws ! i)) (mset [0 ..< length ws])"
    using all_indices_once [OF assms] by simp
  also have "\<dots> = mset (map (\<lambda>i. Some (ws ! i)) [0 ..< length ws])"
    by simp
  also have "map (\<lambda>i. Some (ws ! i)) [0 ..< length ws] = map Some (map (\<lambda>i. ws ! i) [0 ..< length ws])"
    by simp
  also have "map (\<lambda>i. ws ! i) [0 ..< length ws] = ws"
    by (rule map_nth)
  finally show ?thesis .
qed

text \<open>
  C7. On a loaded dictionary with \<open>N\<close> entries, for values of \<open>Math.random()\<close> that are
  doubles in \<open>[0, 1)\<close>, the call \<open>getMultipleRandomWords(count)\<close> returns exactly when the
  draws hit \<open>min(count, N)\<close> different indices after finitely many calls; with a source
  that keeps repeating indices it never returns. Whenever it returns, the array has
  exactly \<open>min(count, N)\<close> elements, they are the entries at pairwise distinct indices
  below \<open>N\<close>, for \<open>count \<ge> N\<close> they are all entries, each once, and for \<open>count = 0\<close> the
  array is empty.
\<close>

theorem getMultipleRandomWords_returns_distinct:
  assumes "isLoaded d"
    and "\<forall>r \<in> sset rs. 0 \<le> r \<and> r \<le> 1 - 1 / 2 ^ 53"
  shows "(getMultipleRandomWords d cnt rs \<noteq> None \<longleftrightarrow>
            (\<exists>k. min cnt (length (words d))
                   \<le> card ((\<lambda>r. randomIndex r (length (words d))) ` set (stake k rs)))) \<and>
         (\<forall>idxs res.
            getMultipleRandomWords d cnt rs = Some (idxs, res) \<longrightarrow>
            length res = min cnt (length (words d)) \<and>
            distinct idxs \<and> (\<forall>i \<in> set idxs. i < length (words d)) \<and>
            res = map (\<lambda>i. Some (words d ! i)) idxs \<and>
            (length (words d) \<le> cnt \<longrightarrow> mset res = mset (map Some (words d))) \<and>
            (cnt = 0 \<longrightarrow> res = []))"
proof (cases "words d = []")
  case True
  then have "getMultipleRandomWords d cnt rs = Some ([], [])"
    by (simp add: getMultipleRandomWords_def)
  then show ?thesis
    using True by simp
next
  case False
  let ?m = "min cnt (length (words d))"
  let ?idx = "\<lambda>r. randomIndex r (length (words d))"
  have run: "getMultipleRandomWords d cnt rs = drawLoop (words d) ?m rs [] []"
    using assms(1) False by (simp add: getMultipleRandomWords_def)
  have enough: "\<exists>idxs out. drawLoop (words d) ?m rs [] [] = Some (idxs, out) \<and>
           distinct idxs \<and> length idxs = ?m \<and> (\<forall>i \<in> set idxs. i < length (words d)) \<and>
           out = map (\<lambda>i. Some (words d ! i)) idxs"
    if "?m \<le> card (?idx ` set (stake k rs))" for k
    using drawLoop_enough [of ?m "[]" "words d" k rs "[]"] that assms(2) False by simp
  have returned: "\<exists>k. ?m \<le> card (?idx ` set (stake k rs))"
    if "drawLoop (words d) ?m rs [] [] = Some y" for y
    using drawLoop_returned [OF that] by simp
  have iff: "getMultipleRandomWords d cnt rs \<noteq> None \<longleftrightarrow>
               (\<exists>k. ?m \<le> card (?idx ` set (stake k rs)))"
    using enough returned unfolding run by (metis not_None_eq option.distinct(1))
  have props: "length res = ?m \<and> distinct idxs \<and> (\<forall>i \<in> set idxs. i < length (words d)) \<and>
            res = map (\<lambda>i. Some (words d ! i)) idxs \<and>
            (length (words d) \<le> cnt \<longrightarrow> mset res = mset (map Some (words d))) \<and>
            (cnt = 0 \<longrightarrow> res = [])"
    if ret: "getMultipleRandomWords d cnt rs = Some (idxs, res)" for idxs res
  proof -
    obtain k where "?m \<le> card (?idx ` set (stake k rs))"
      using returned ret run by metis
    then have p: "distinct idxs \<and> length idxs = ?m \<and> (\<forall>i \<in> set idxs. i < length (words d)) \<and>
           res = map (\<lambda>i. Some (words d ! i)) idxs"
      using enough [of k] ret run by simp
    then have len: "length res = ?m"
      by simp
    have all: "mset res = mset (map Some (words d))" if "length (words d) \<le> cnt"
    proof -
      have "length idxs = length (words d)"
        using p that by simp
      then show ?thesis
        using every_entry_once [of idxs "words d"] p by simp
    qed
    have "res = []" if "cnt = 0"
      using len that by simp
    with p len all show ?thesis
      by simp
  qed
  from iff props show ?thesis
    by blast
qed

theorem getMultipleRandomWords_returns_distinct_witness:
  "isLoaded (snd (loadWords (\<lambda>a b. 0)
       (JObj [(''apple'', JStr ''a fruit''), (''application'', JStr ''a program'')]) newDictionary)) \<and>
   (0 :: rat) \<le> 1 / 4 \<and> (3 / 4 :: rat) \<le> 1 - 1 / 2 ^ 53 \<and>
   getMultipleRandomWords
     (snd (loadWords (\<lambda>a b. 0)
       (JObj [(''apple'', JStr ''a fruit''), (''application'', JStr ''a program'')]) newDictionary))
     5 (3 / 4 ## 3 / 4 ## 1 / 4 ## sconst 0)
     = Some ([1, 0], [Some \<lparr>word = ''application'', definitionText = ''a program''\<rparr>,
                      Some \<lparr>word = ''apple'', definitionText = ''a fruit''\<rparr>]) \<and>
   (\<exists>k. min 5 (length (words (snd (loadWords (\<lambda>a b. 0)
       (JObj [(''apple'', JStr ''a fruit''), (''application'', JStr ''a program'')]) newDictionary))))
         \<le> card ((\<lambda>r. randomIndex r (length (words (snd (loadWords (\<lambda>a b. 0)
       (JObj [(''apple'', JStr ''a fruit''), (''application'', JStr ''a program'')]) newDictionary)))))
                   ` set (stake k (3 / 4 ## 3 / 4 ## 1 / 4 ## sconst 0))))"
proof -
  let ?d = "snd (loadWords (\<lambda>a b. 0)
       (JObj [(''apple'', JStr ''a fruit''), (''application'', JStr ''a program'')]) newDictionary)"
  let ?rs = "3 / 4 ## 3 / 4 ## 1 / 4 ## sconst (0::rat)"
  have h1: "isLoaded ?d"
    by code_simp
  have h2: "\<forall>r \<in> sset ?rs. 0 \<le> r \<and> r \<le> 1 - 1 / 2 ^ 53"
    by simp
  have ws: "words ?d = [\<lparr>word = ''apple'', definitionText = ''a fruit''\<rparr>,
                        \<lparr>word = ''application'', definitionText = ''a program''\<rparr>]"
    by code_simp
  have i1: "randomIndex (3 / 4) (Suc (Suc 0)) = Suc 0"
    by code_simp
  have i0: "randomIndex (1 / 4) (Suc (Suc 0)) = 0"
    by code_simp
  have e: "getMultipleRandomWords ?d 5 ?rs
     = Some ([1, 0], [Some \<lparr>word = ''application'', definitionText = ''a program''\<rparr>,
                      Some \<lparr>word = ''apple'', definitionText = ''a fruit''\<rparr>])"
    by (simp add: getMultipleRandomWords_def h1 ws drawLoop_new drawLoop_repeat drawLoop_done
        i1 i0 elemAt_def)
  then have "getMultipleRandomWords ?d 5 ?rs \<noteq> None"
    by simp
  then have "\<exists>k. min 5 (length (words ?d))
         \<le> card ((\<lambda>r. randomIndex r (length (words ?d))) ` set (stake k ?rs))"
    using getMultipleRandomWords_returns_distinct [OF h1 h2, of 5] by blast
  then show ?thesis
    using h1 e by simp
qed

lemma set_stake_subset: "set (stake k s) \<subseteq> sset s"
proof (induction k arbitrary: s)
  case 0
  then show ?case by simp
next
  case (Suc k)
  have "set (stake k (stl s)) \<subseteq> sset (stl s)"
    by (rule Suc.IH)
  also have "\<dots> \<subseteq> sset s"
    by (auto dest: stl_sset)
  finally show ?case
    by (simp add: shd_sset)
qed

theorem getMultipleRandomWords_counterexample:
  "isLoaded (snd (loadWords (\<lambda>a b. 0)
       (JObj [(''apple'', JStr ''a fruit''), (''application'', JStr ''a program'')]) newDictionary)) \<and>
   length (words (snd (loadWords (\<lambda>a b. 0)
       (JObj [(''apple'', JStr ''a fruit''), (''application'', JStr ''a program'')]) newDictionary))) = 2 \<and>
   getMultipleRandomWords
     (snd (loadWords (\<lambda>a b. 0)
       (JObj [(''apple'', JStr ''a fruit''), (''application'', JStr ''a program'')]) newDictionary))
     2 (sconst (1 / 2)) = None"
proof -
  let ?d = "snd (loadWords (\<lambda>a b. 0)
       (JObj [(''apple'', JStr ''a fruit''), (''application'', JStr ''a program'')]) newDictionary)"
  have h1: "isLoaded ?d"
    by code_simp
  have n: "length (words ?d) = 2"
    by code_simp
  have run: "getMultipleRandomWords ?d 2 (sconst (1 / 2)) = drawLoop (words ?d) 2 (sconst (1 / 2)) [] []"
    using h1 n by (simp add: getMultipleRandomWords_def)
  have "drawLoop (words ?d) 2 (sconst (1 / 2)) [] [] = None"
  proof (rule ccontr)
    assume "drawLoop (words ?d) 2 (sconst (1 / 2)) [] [] \<noteq> None"
    then obtain y where "drawLoop (words ?d) 2 (sconst (1 / 2)) [] [] = Some y"
      by blast
    then obtain k where k: "2 \<le> card (set [] \<union>
         (\<lambda>r. randomIndex r (length (words ?d))) ` set (stake k (sconst (1 / 2 :: rat))))"
      using drawLoop_returned [of "words ?d" 2 "sconst (1 / 2)" "[]" "[]" y] by auto
    have "set (stake k (sconst (1 / 2 :: rat))) \<subseteq> sset (sconst (1 / 2))"
      by (rule set_stake_subset)
    then have "set (stake k (sconst (1 / 2 :: rat))) \<subseteq> {1 / 2}"
      by simp
    then have "(\<lambda>r. randomIndex r (length (words ?d))) ` set (stake k (sconst (1 / 2 :: rat)))
                 \<subseteq> {randomIndex (1 / 2) (length (words ?d))}"
      by auto
    then have "card ((\<lambda>r. randomIndex r (length (words ?d))) ` set (stake k (sconst (1 / 2 :: rat))))
                 \<le> card {randomIndex (1 / 2) (length (words ?d))}"
      by (intro card_mono) simp_all
    then show False
      using k by simp
  qed
  then show ?thesis
    using h1 n run by simp
qed

section \<open>The search raises no exception\<close>

lemma foldFault_snoc: "foldFault f (ks @ [k]) x = bindFault (foldFault f ks x) (f k)"
  by (induction ks arbitrary: x) (simp_all add: bindFault_def split: sum.splits)

lemma foldFault_upt:
  assumes "P x"
    and "\<And>k y. a \<le> k \<Longrightarrow> k < b \<Longrightarrow> P y \<Longrightarrow> f k y = Inr (g k y) \<and> P (g k y)"
  shows "foldFault f [a ..< b] x = Inr (fold g [a ..< b] x) \<and> P (fold g [a ..< b] x)"
  using assms(2)
proof (induction b)
  case 0
  then show ?case using assms(1) by simp
next
  case (Suc b)
  show ?case
  proof (cases "a \<le> b")
    case False
    then show ?thesis using assms(1) by simp
  next
    case True
    have IH: "foldFault f [a ..< b] x = Inr (fold g [a ..< b] x) \<and> P (fold g [a ..< b] x)"
      using Suc.IH Suc.prems by simp
    then have "f b (fold g [a ..< b] x) = Inr (g b (fold g [a ..< b] x)) \<and>
               P (g b (fold g [a ..< b] x))"
      using Suc.prems [of b] True by simp
    then show ?thesis
      using True IH by (simp add: foldFault_snoc bindFault_def)
  qed
qed

lemma cellAt_inside:
  "tableShape s1 s2 dp \<Longrightarrow> i \<le> length s1 \<Longrightarrow> j \<le> length s2 \<Longrightarrow> cellAt dp i j = Inr (dp ! i ! j)"
  by (simp add: cellAt_def tableShape_def)

lemma assignCell_inside:
  "tableShape s1 s2 dp \<Longrightarrow> i \<le> length s1 \<Longrightarrow> j \<le> length s2 \<Longrightarrow>
   assignCell dp i j v = Inr (setCell dp i j v)"
  by (simp add: assignCell_def tableShape_def)

lemma cellValueChecked_inside:
  assumes "tableShape s1 s2 dp" and "i \<le> length s1" and "j \<le> length s2"
  shows "cellValueChecked s1 s2 dp i j = Inr (cellValue s1 s2 dp i j)"
proof -
  have "i - 1 \<le> length s1" and "j - 1 \<le> length s2"
    using assms(2,3) by simp_all
  then show ?thesis
    using assms by (simp add: cellValueChecked_def cellValue_def bindFault_def cellAt_inside)
qed

lemma baseCasesChecked_inside:
  "baseCasesChecked s1 s2 = Inr (baseCases s1 s2) \<and> tableShape s1 s2 (baseCases s1 s2)"
proof -
  define dp0 where "dp0 = replicate (length s1 + 1) (replicate (length s2 + 1) (0::nat))"
  define dp1 where "dp1 = fold (\<lambda>i dp. setCell dp i 0 i) [0 ..< length s1 + 1] dp0"
  have "tableShape s1 s2 dp0"
    by (simp add: tableShape_def dp0_def nth_Cons')
  then have one: "foldFault (\<lambda>i dp. assignCell dp i 0 i) [0 ..< length s1 + 1] dp0 = Inr dp1
                  \<and> tableShape s1 s2 dp1"
    unfolding dp1_def
    by (rule foldFault_upt) (simp add: assignCell_inside tableShape_setCell)
  then have "foldFault (\<lambda>j dp. assignCell dp 0 j j) [0 ..< length s2 + 1] dp1
               = Inr (fold (\<lambda>j dp. setCell dp 0 j j) [0 ..< length s2 + 1] dp1)
             \<and> tableShape s1 s2 (fold (\<lambda>j dp. setCell dp 0 j j) [0 ..< length s2 + 1] dp1)"
    by (intro foldFault_upt) (simp_all add: assignCell_inside tableShape_setCell)
  moreover have "baseCases s1 s2 = fold (\<lambda>j dp. setCell dp 0 j j) [0 ..< length s2 + 1] dp1"
    by (simp only: baseCases_def Let_def dp0_def dp1_def)
  moreover have "baseCasesChecked s1 s2 =
      bindFault (foldFault (\<lambda>i dp. assignCell dp i 0 i) [0 ..< length s1 + 1] dp0)
        (foldFault (\<lambda>j dp. assignCell dp 0 j j) [0 ..< length s2 + 1])"
    by (simp only: baseCasesChecked_def dp0_def)
  ultimately show ?thesis
    using one by (simp add: bindFault_def)
qed

lemma fillRowChecked_inside:
  assumes "tableShape s1 s2 dp" and "i \<le> length s1"
  shows "fillRowChecked s1 s2 i dp = Inr (fillRow s1 s2 i dp) \<and>
         tableShape s1 s2 (fillRow s1 s2 i dp)"
  unfolding fillRowChecked_def fillRow_def
  using assms(1)
  by (rule foldFault_upt)
    (simp add: assms(2) cellValueChecked_inside assignCell_inside tableShape_setCell bindFault_def)

lemma editDistanceChecked_inside: "editDistanceChecked s1 s2 = Inr (editDistance s1 s2)"
proof -
  define dp where "dp = fold (fillRow s1 s2) [1 ..< length s1 + 1] (baseCases s1 s2)"
  have base: "baseCasesChecked s1 s2 = Inr (baseCases s1 s2)"
    and shape: "tableShape s1 s2 (baseCases s1 s2)"
    using baseCasesChecked_inside by blast+
  have "foldFault (fillRowChecked s1 s2) [1 ..< length s1 + 1] (baseCases s1 s2) = Inr dp
        \<and> tableShape s1 s2 dp"
    unfolding dp_def using shape
    by (rule foldFault_upt) (simp add: fillRowChecked_inside)
  then have rows: "foldFault (fillRowChecked s1 s2) [1 ..< length s1 + 1] (baseCases s1 s2) = Inr dp"
    and filled: "tableShape s1 s2 dp"
    by blast+
  have "editDistanceChecked s1 s2 = cellAt dp (length s1) (length s2)"
    by (simp only: editDistanceChecked_def base rows bindFault_def sum.case)
  also have "\<dots> = Inr (dp ! length s1 ! length s2)"
    using filled by (simp add: cellAt_inside)
  also have "dp ! length s1 ! length s2 = editDistance s1 s2"
    by (simp only: editDistance_def Let_def dp_def)
  finally show ?thesis .
qed

lemma fuzzyMatchChecked_inside: "fuzzyMatchChecked str trm = Inr (fuzzyMatch str trm)"
  by (simp only: fuzzyMatchChecked_def fuzzyMatch_def Let_def bindFault_def
      editDistanceChecked_inside sum.case if_distrib [where f = Inr])

lemma fuzzyLoopChecked_inside:
  assumes "fuzzyLimit \<le> length es"
  shows "fuzzyLoopChecked q es fuzzyLimit i rs = Inr (fuzzyLoop q (drop i (take fuzzyLimit es)) rs)"
  using assms
proof (induction q es fuzzyLimit i rs rule: fuzzyLoopChecked.induct)
  case (1 q es fuzzyLimit i rs)
  show ?case
  proof (cases "i < fuzzyLimit")
    case False
    then show ?thesis
      by (subst fuzzyLoopChecked.simps) simp
  next
    case True
    then have inside: "i < length es"
      using "1.prems" by simp
    let ?entry = "es ! i"
    let ?rs' = "if fuzzyMatch (word ?entry) q > 0
                then rs @ [withScore ?entry (fuzzyMatch (word ?entry) q) ''word''] else rs"
    have cut: "drop i (take fuzzyLimit es) = ?entry # drop (Suc i) (take fuzzyLimit es)"
      using True inside by (simp add: Cons_nth_drop_Suc [symmetric])
    show ?thesis
    proof (cases "length ?rs' \<ge> maxResults")
      case full: True
      have "fuzzyLoopChecked q es fuzzyLimit i rs = Inr ?rs'"
        using True inside full
        by (subst fuzzyLoopChecked.simps) (simp add: elemAt_def fuzzyMatchChecked_inside Let_def)
      then show ?thesis
        using full by (simp add: cut Let_def)
    next
      case room: False
      have "fuzzyLoopChecked q es fuzzyLimit i rs = fuzzyLoopChecked q es fuzzyLimit (Suc i) ?rs'"
        using True inside room
        by (subst fuzzyLoopChecked.simps) (simp add: elemAt_def fuzzyMatchChecked_inside Let_def)
      also have "\<dots> = Inr (fuzzyLoop q (drop (Suc i) (take fuzzyLimit es)) ?rs')"
        using "1.IH" [of ?entry "fuzzyMatch (word ?entry) q" ?rs'] True inside room "1.prems"
        by (simp add: elemAt_def fuzzyMatchChecked_inside)
      finally show ?thesis
        using room by (simp add: cut Let_def)
    qed
  qed
qed

lemma searchWordsChecked_inside: "searchWordsChecked d q = Inr (searchWords d q)"
proof (cases "\<not> isLoaded d \<or> q = []")
  case True
  then show ?thesis
    by (auto simp: searchWordsChecked_def searchWords_def)
next
  case False
  let ?scan = "scanWords q (toLowerCase q) (words d) ([], [])"
  have loop: "fuzzyLoopChecked q (snd ?scan) (min (length (snd ?scan)) 500) 0 rs
        = Inr (fuzzyLoop q (take (min (length (snd ?scan)) 500) (snd ?scan)) rs)" for rs
    using fuzzyLoopChecked_inside [of "min (length (snd ?scan)) 500" "snd ?scan" q 0 rs]
    by simp
  show ?thesis
    using False
    by (cases "wordIndex d (toLowerCase q)")
      (simp_all add: searchWordsChecked_def searchWords_def collectResults_def Let_def
        bindFault_def loop)
qed

text \<open>
  C9. \<open>searchWords\<close> raises no exception, for every dictionary and every query: the
  search with the failures of the runtime written out always returns, and returns what
  \<open>searchWords\<close> returns; before the load, or with the empty query, that is the empty
  array. \<open>getRandomWord\<close> has no operation that can raise; before the load, or without
  entries, it returns \<open>null\<close>, and on a loaded dictionary with entries it returns one of
  the entries (never \<open>undefined\<close>) for every double in \<open>[0, 1)\<close>.
\<close>

theorem search_and_random_never_raise:
  "searchWordsChecked d q = Inr (searchWords d q) \<and>
   (\<not> isLoaded d \<or> q = [] \<longrightarrow> searchWords d q = []) \<and>
   (\<not> isLoaded d \<or> words d = [] \<longrightarrow> getRandomWord d r = None) \<and>
   (isLoaded d \<and> words d \<noteq> [] \<and> 0 \<le> r \<and> r \<le> 1 - 1 / 2 ^ 53 \<longrightarrow>
      (\<exists>e \<in> set (words d). getRandomWord d r = Some e))"
proof -
  have "\<exists>e \<in> set (words d). getRandomWord d r = Some e"
    if "isLoaded d" and "words d \<noteq> []" and "0 \<le> r" and "r \<le> 1 - 1 / 2 ^ 53"
  proof -
    have "randomIndex r (length (words d)) < length (words d)"
      using that by (simp add: randomIndex_less)
    then show ?thesis
      using that by (simp add: getRandomWord_def elemAt_def)
  qed
  then show ?thesis
    by (simp add: searchWordsChecked_inside searchWords_def getRandomWord_def)
qed

theorem search_and_random_never_raise_witness:
  "searchWordsChecked
     (snd (loadWords (\<lambda>a b. 0)
        (JArr [JObj [(''word'', JStr '' Cat ''), (''definition'', JStr ''An animal'')]])
        newDictionary)) '' cat ''
     = Inr [\<lparr>word = ''Cat'', definitionText = ''An animal'', score = 60, matchType = ''word''\<rparr>] \<and>
   searchWords
     (snd (loadWords (\<lambda>a b. 0)
        (JArr [JObj [(''word'', JStr '' Cat ''), (''definition'', JStr ''An animal'')]])
        newDictionary)) '' cat ''
     = [\<lparr>word = ''Cat'', definitionText = ''An animal'', score = 60, matchType = ''word''\<rparr>] \<and>
   searchWords newDictionary ''cat'' = [] \<and>
   getRandomWord newDictionary (1 / 2) = None \<and>
   getRandomWord
     (snd (loadWords (\<lambda>a b. 0)
        (JArr [JObj [(''word'', JStr '' Cat ''), (''definition'', JStr ''An animal'')]])
        newDictionary)) (1 / 2)
     = Some \<lparr>word = ''Cat'', definitionText = ''An animal''\<rparr>"
proof -
  let ?d = "snd (loadWords (\<lambda>a b. 0)
        (JArr [JObj [(''word'', JStr '' Cat ''), (''definition'', JStr ''An animal'')]])
        newDictionary)"
  have e: "searchWords ?d '' cat ''
     = [\<lparr>word = ''Cat'', definitionText = ''An animal'', score = 60, matchType = ''word''\<rparr>]"
    by code_simp
  have g: "getRandomWord ?d (1 / 2) = Some \<lparr>word = ''Cat'', definitionText = ''An animal''\<rparr>"
    by code_simp
  have n: "\<not> isLoaded newDictionary"
    by (simp add: newDictionary_def)
  show ?thesis
    using search_and_random_never_raise [of ?d "'' cat ''" "1 / 2"]
      search_and_random_never_raise [of newDictionary "''cat''" "1 / 2"] e g n
    by simp
qed

section \<open>The tiers of the score\<close>



end
